theory Spec2Isabelle
  imports
    Complex_Main
    "HOL-Library.Word"
    "HOL-Library.Char_ord"
    "HOL-Library.List_Lexorder"
    "HOL-Library.Multiset"
    "HOL-Library.Sublist"
    "HOL-Library.Log_Nat"
begin

section \<open>Go values\<close>

text \<open>
  Go's \<^verbatim>\<open>int\<close> on a 64-bit platform: a two's complement 64-bit word. Arithmetic wraps
  around; comparisons read the word through \<open>sint\<close>. Timestamps are points of a linear
  order, here integers. Strings are byte strings.
\<close>

type_synonym int64 = "64 word"
type_synonym time = int

text \<open>
  A Go \<^verbatim>\<open>error\<close> value. \<^verbatim>\<open>sql.ErrNoRows\<close> is a sentinel compared by identity; every other
  error (a driver error, or one made by \<^verbatim>\<open>fmt.Errorf\<close>) is known by its text.
\<close>

datatype error = ErrNoRows | Err string

fun Error :: "error \<Rightarrow> string" where
  "Error ErrNoRows = ''sql: no rows in result set''"
| "Error (Err msg) = msg"

text \<open>The verb \<^verbatim>\<open>%d\<close> of \<^verbatim>\<open>fmt\<close>: a decimal numeral, with a minus sign when negative.\<close>

definition digit_char :: "nat \<Rightarrow> char" where
  "digit_char d = ''0123456789'' ! d"

function fmt_nat :: "nat \<Rightarrow> string" where
  "fmt_nat n = (if n < 10 then [digit_char n] else fmt_nat (n div 10) @ [digit_char (n mod 10)])"
  by pat_completeness auto
termination
  by (relation "measure id") auto

definition fmt_d :: "int \<Rightarrow> string" where
  "fmt_d i = (if i < 0 then CHR ''-'' # fmt_nat (nat (- i)) else fmt_nat (nat i))"

text \<open>
  \<^verbatim>\<open>strings.ToUpper\<close> on the ASCII letters: bit 5 of a byte between \<open>a\<close> and \<open>z\<close> is
  cleared, every other byte is kept. (Go also maps letters outside ASCII; the only
  caller passes the strings \<open>asc\<close> and \<open>desc\<close> once the sort direction is validated.)
\<close>

fun upper_char :: "char \<Rightarrow> char" where
  "upper_char (Char b0 b1 b2 b3 b4 b5 b6 b7) =
     (if CHR ''a'' \<le> Char b0 b1 b2 b3 b4 b5 b6 b7 \<and> Char b0 b1 b2 b3 b4 b5 b6 b7 \<le> CHR ''z''
      then Char b0 b1 b2 b3 b4 False b6 b7 else Char b0 b1 b2 b3 b4 b5 b6 b7)"

definition ToUpper :: "string \<Rightarrow> string" where
  "ToUpper s = map upper_char s"

section \<open>Domain types\<close>

record Service =
  ID :: int64
  Name :: string
  Description :: string
  CreatedAt :: time
  UpdatedAt :: time

record ServiceVersion =
  ID :: int64
  ServiceID :: int64
  Version :: string
  CreatedAt :: time

record ServiceWithVersions =
  Service :: Service
  Versions :: "ServiceVersion list"

record ServiceQuery =
  Search :: string
  SortBy :: string
  SortDir :: string
  Page :: int64
  PageSize :: int64

record ServiceListResponse =
  Services :: "ServiceWithVersions list"
  Total :: int64
  Page :: int64
  PageSize :: int64
  TotalPages :: int64

section \<open>The relational store\<close>

text \<open>
  The repository talks to SQLite through four statements. A statement is kept with its
  clauses and bound arguments instead of its text: the \<^verbatim>\<open>WHERE\<close> clause is absent or
  \<^verbatim>\<open>s.name LIKE ? OR s.description LIKE ?\<close> with two bound patterns, the \<^verbatim>\<open>ORDER BY\<close>
  clause is a column with a direction, \<^verbatim>\<open>LIMIT ? OFFSET ?\<close> binds two integers.
\<close>

datatype where_clause = NoWhere | NameLikeOrDescriptionLike string string

datatype column = s_name | s_created_at | s_updated_at

datatype direction = ASC | DESC

datatype sql_call =
    CountServices where_clause
  | SelectServices where_clause column direction int64 int64
  | SelectServiceByID int64
  | SelectVersionsByServiceID int64

text \<open>
  The database: the rows of the two tables in row order, and for every statement the
  error the driver answers it with, if any.
\<close>

record database =
  services :: "Service list"
  service_versions :: "ServiceVersion list"
  fault :: "sql_call \<Rightarrow> error option"

text \<open>
  SQLite's \<^verbatim>\<open>LIKE\<close> (\<^verbatim>\<open>likeFunc\<close> and \<^verbatim>\<open>patternCompare\<close> in its \<^verbatim>\<open>func.c\<close>, \<^verbatim>\<open>sqlite3Utf8Read\<close> in
  its \<^verbatim>\<open>utf.c\<close>). The pattern and the text are handed over as NUL-terminated strings, so
  each is read up to its first NUL byte, whatever bytes the value holds after it.
\<close>

definition NUL :: char where
  "NUL = Char False False False False False False False False"

definition c_string :: "string \<Rightarrow> string" where
  "c_string s = takeWhile (\<lambda>b. b \<noteq> NUL) s"

text \<open>
  Both are read one UTF-8 character at a time. A byte below \<^verbatim>\<open>0xC0\<close> is a character of its
  own. A byte from \<^verbatim>\<open>0xC0\<close> on starts a character that takes all the continuation bytes
  (\<^verbatim>\<open>0x80\<close> to \<^verbatim>\<open>0xBF\<close>) after it: its value starts from the entry of the table
  \<^verbatim>\<open>sqlite3Utf8Trans1\<close> for the first byte and is shifted by six bits for every continuation
  byte, in 32 bits; a value below \<^verbatim>\<open>0x80\<close>, a surrogate, \<^verbatim>\<open>0xFFFE\<close> and \<^verbatim>\<open>0xFFFF\<close> are replaced
  by \<^verbatim>\<open>0xFFFD\<close>.
\<close>

definition is_continuation :: "char \<Rightarrow> bool" where
  "is_continuation b \<longleftrightarrow> 128 \<le> (of_char b :: nat) \<and> (of_char b :: nat) < 192"

definition sqlite3Utf8Trans1 :: "nat \<Rightarrow> nat" where
  "sqlite3Utf8Trans1 b =
     (if b < 224 then b - 192
      else if b < 240 then b - 224
      else if b < 248 then b - 240
      else if b < 252 then b - 248
      else if b < 254 then b - 252
      else 0)"

definition utf8_shift :: "nat \<Rightarrow> char \<Rightarrow> nat" where
  "utf8_shift c b = (c * 64 + (of_char b :: nat) mod 64) mod 2 ^ 32"

definition utf8_replace :: "nat \<Rightarrow> nat" where
  "utf8_replace c = (if c < 128 \<or> c div 2048 = 27 \<or> c div 2 = 32767 then 65533 else c)"

definition sqlite3Utf8Read :: "char \<Rightarrow> string \<Rightarrow> nat \<times> string" where
  "sqlite3Utf8Read b bs =
     (if (of_char b :: nat) < 192 then (of_char b, bs)
      else (utf8_replace (foldl utf8_shift (sqlite3Utf8Trans1 (of_char b))
              (takeWhile is_continuation bs)),
            dropWhile is_continuation bs))"

function utf8_chars :: "string \<Rightarrow> nat list" where
  "utf8_chars [] = []"
| "utf8_chars (b # bs) = fst (sqlite3Utf8Read b bs) # utf8_chars (snd (sqlite3Utf8Read b bs))"
  by pat_completeness auto
termination
  by (relation "measure length")
    (auto simp: sqlite3Utf8Read_def le_imp_less_Suc length_dropWhile_le)

definition sql_chars :: "string \<Rightarrow> nat list" where
  "sql_chars s = utf8_chars (c_string s)"

text \<open>
  \<^verbatim>\<open>patternCompare\<close> on the characters of the pattern and of the text: \<open>%\<close> (37) in the
  pattern matches any run of characters, \<open>_\<close> (95) matches any single character, every
  other character matches itself, and two characters below \<^verbatim>\<open>0x80\<close> also match when
  \<^verbatim>\<open>sqlite3Tolower\<close> makes them equal, which identifies upper and lower case ASCII letters.
  No escape character is in force. SQLite's loop, with its early exits, decides this
  relation. (A pattern of more than 50000 bytes makes the statement fail instead: one of
  the faults of the store.)
\<close>

definition sqlite3Tolower :: "nat \<Rightarrow> nat" where
  "sqlite3Tolower c = (if 65 \<le> c \<and> c \<le> 90 then c + 32 else c)"

fun patternCompare :: "nat list \<Rightarrow> nat list \<Rightarrow> bool" where
  "patternCompare [] [] = True"
| "patternCompare [] (c2 # cs) = False"
| "patternCompare (c # ps) [] = (c = 37 \<and> patternCompare ps [])"
| "patternCompare (c # ps) (c2 # cs) =
     (if c = 37 then patternCompare ps (c2 # cs) \<or> patternCompare (c # ps) cs
      else (c = c2 \<or> (sqlite3Tolower c = sqlite3Tolower c2 \<and> c < 128 \<and> c2 < 128) \<or> c = 95) \<and>
           patternCompare ps cs)"

definition like :: "string \<Rightarrow> string \<Rightarrow> bool" where
  "like p s \<longleftrightarrow> patternCompare (sql_chars p) (sql_chars s)"

fun where_rows :: "where_clause \<Rightarrow> Service list \<Rightarrow> Service list" where
  "where_rows NoWhere rows = rows"
| "where_rows (NameLikeOrDescriptionLike p1 p2) rows =
     filter (\<lambda>s. like p1 (Name s) \<or> like p2 (Description s)) rows"

text \<open>
  \<^verbatim>\<open>ORDER BY\<close>: text columns compare bytewise, timestamps by time. SQL leaves the order
  of rows with equal keys open; here ascending order keeps them in row order and
  descending order is the reverse of ascending order.
\<close>

fun sort_column :: "column \<Rightarrow> Service list \<Rightarrow> Service list" where
  "sort_column s_name rows = sort_key Name rows"
| "sort_column s_created_at rows = sort_key Service.CreatedAt rows"
| "sort_column s_updated_at rows = sort_key UpdatedAt rows"

fun order_rows :: "column \<Rightarrow> direction \<Rightarrow> Service list \<Rightarrow> Service list" where
  "order_rows col ASC rows = sort_column col rows"
| "order_rows col DESC rows = rev (sort_column col rows)"

text \<open>
  \<^verbatim>\<open>LIMIT l OFFSET o\<close>: a negative offset counts as zero, a negative limit as no limit.
\<close>

definition limit_offset :: "int64 \<Rightarrow> int64 \<Rightarrow> 'a list \<Rightarrow> 'a list" where
  "limit_offset l off rows =
     (let rest = drop (nat (sint off)) rows
      in if sint l < 0 then rest else take (nat (sint l)) rest)"

text \<open>
  Running a statement yields the driver's error or the result, and the statement is
  recorded as one call to the store.
\<close>

definition run :: "database \<Rightarrow> sql_call \<Rightarrow> 'a \<Rightarrow> (error + 'a) \<times> sql_call list" where
  "run db call result =
     ((case fault db call of Some err \<Rightarrow> Inl err | None \<Rightarrow> Inr result), [call])"

definition count_services :: "database \<Rightarrow> where_clause \<Rightarrow> (error + int64) \<times> sql_call list" where
  "count_services db w =
     run db (CountServices w) (of_nat (length (where_rows w (services db))))"

definition select_services ::
  "database \<Rightarrow> where_clause \<Rightarrow> column \<Rightarrow> direction \<Rightarrow> int64 \<Rightarrow> int64
     \<Rightarrow> (error + Service list) \<times> sql_call list" where
  "select_services db w col dir l off =
     run db (SelectServices w col dir l off)
       (limit_offset l off (order_rows col dir (where_rows w (services db))))"

text \<open>\<^verbatim>\<open>QueryRow(...).Scan\<close>: the first row, or \<^verbatim>\<open>sql.ErrNoRows\<close> when there is none.\<close>

definition select_service_by_id :: "database \<Rightarrow> int64 \<Rightarrow> (error + Service) \<times> sql_call list" where
  "select_service_by_id db i =
     (case fault db (SelectServiceByID i) of
        Some err \<Rightarrow> (Inl err, [SelectServiceByID i])
      | None \<Rightarrow>
          (case find (\<lambda>s. Service.ID s = i) (services db) of
             None \<Rightarrow> (Inl ErrNoRows, [SelectServiceByID i])
           | Some s \<Rightarrow> (Inr s, [SelectServiceByID i])))"

definition select_versions ::
  "database \<Rightarrow> int64 \<Rightarrow> (error + ServiceVersion list) \<times> sql_call list" where
  "select_versions db i =
     run db (SelectVersionsByServiceID i)
       (rev (sort_key ServiceVersion.CreatedAt
          (filter (\<lambda>v. ServiceID v = i) (service_versions db))))"

section \<open>ServiceRepository\<close>

definition getVersionsByServiceID ::
  "database \<Rightarrow> int64 \<Rightarrow> (error + ServiceVersion list) \<times> sql_call list" where
  "getVersionsByServiceID db serviceID = select_versions db serviceID"

text \<open>The loop over the rows of \<^verbatim>\<open>GetAll\<close>: one versions query per row, stopping at the first error.\<close>

fun scan_rows ::
  "database \<Rightarrow> Service list \<Rightarrow> (error + ServiceWithVersions list) \<times> sql_call list" where
  "scan_rows db [] = (Inr [], [])"
| "scan_rows db (service # rows) =
     (case getVersionsByServiceID db (Service.ID service) of
        (Inl err, t) \<Rightarrow> (Inl err, t)
      | (Inr versions, t) \<Rightarrow>
          (case scan_rows db rows of
             (Inl err, t') \<Rightarrow> (Inl err, t @ t')
           | (Inr rest, t') \<Rightarrow>
               (Inr (\<lparr>Service = service, Versions = versions\<rparr> # rest), t @ t')))"

definition GetAll ::
  "database \<Rightarrow> ServiceQuery \<Rightarrow> (error + ServiceWithVersions list \<times> int64) \<times> sql_call list" where
  "GetAll db query =
     (let whereClause =
            (if Search query \<noteq> ''''
             then NameLikeOrDescriptionLike (''%'' @ Search query @ ''%'')
                    (''%'' @ Search query @ ''%'')
             else NoWhere);
          direction = (if ToUpper (SortDir query) = ''DESC'' then DESC else ASC);
          orderBy =
            (if SortBy query \<noteq> '''' then
               (if SortBy query = ''name'' then (s_name, direction)
                else if SortBy query = ''created_at'' then (s_created_at, direction)
                else if SortBy query = ''updated_at'' then (s_updated_at, direction)
                else (s_name, ASC))
             else (s_name, ASC))
      in case count_services db whereClause of
           (Inl err, t1) \<Rightarrow> (Inl err, t1)
         | (Inr total', t1) \<Rightarrow>
             (let offset = (ServiceQuery.Page query - 1) * ServiceQuery.PageSize query
              in case select_services db whereClause (fst orderBy) (snd orderBy)
                        (ServiceQuery.PageSize query) offset of
                   (Inl err, t2) \<Rightarrow> (Inl err, t1 @ t2)
                 | (Inr rows, t2) \<Rightarrow>
                     (case scan_rows db rows of
                        (Inl err, t3) \<Rightarrow> (Inl err, t1 @ t2 @ t3)
                      | (Inr svcs, t3) \<Rightarrow> (Inr (svcs, total'), t1 @ t2 @ t3))))"

definition GetByID ::
  "database \<Rightarrow> int64 \<Rightarrow> (error + ServiceWithVersions option) \<times> sql_call list" where
  "GetByID db i =
     (case select_service_by_id db i of
        (Inl err, t1) \<Rightarrow> (if err = ErrNoRows then (Inr None, t1) else (Inl err, t1))
      | (Inr service, t1) \<Rightarrow>
          (case getVersionsByServiceID db (Service.ID service) of
             (Inl err, t2) \<Rightarrow> (Inl err, t1 @ t2)
           | (Inr versions, t2) \<Rightarrow>
               (Inr (Some \<lparr>Service = service, Versions = versions\<rparr>), t1 @ t2)))"

section \<open>float64\<close>

text \<open>
  The values of a \<^verbatim>\<open>float64\<close>: the finite ones as rational numbers, the infinities and
  NaN. Signed zeros are not told apart. A finite result is rounded to the nearest value
  with a 53-bit significand, ties to the even significand; the exponent range is not
  bounded, which is exact for magnitudes from \<open>2 powi - 1022\<close> up to the largest
  finite \<^verbatim>\<open>float64\<close>; the values met here lie between \<open>1 / 100\<close> and \<open>2 ^ 63\<close>.
\<close>

datatype float64 = Finite rat | PosInf | NegInf | NaN

definition round_half_even :: "rat \<Rightarrow> int" where
  "round_half_even y =
     (let f = \<lfloor>y\<rfloor>; d = y - of_int f
      in if d < 1 / 2 then f else if 1 / 2 < d then f + 1 else if even f then f else f + 1)"

text \<open>For \<open>0 < x\<close>, the exponent \<open>e\<close> with \<open>2 powi e \<le> x < 2 powi (e + 1)\<close>.\<close>

definition ilog2 :: "rat \<Rightarrow> int" where
  "ilog2 x = (if 1 \<le> x then bitlen \<lfloor>x\<rfloor> - 1 else - bitlen (\<lceil>1 / x\<rceil> - 1))"

definition f64_round :: "rat \<Rightarrow> rat" where
  "f64_round x =
     (if x = 0 then 0
      else (let e = ilog2 \<bar>x\<bar> - 52
            in sgn x * of_int (round_half_even (\<bar>x\<bar> / 2 powi e)) * 2 powi e))"

text \<open>The conversion \<^verbatim>\<open>float64(i)\<close> of an \<^verbatim>\<open>int\<close>.\<close>

definition float64_of_int :: "int64 \<Rightarrow> float64" where
  "float64_of_int i = Finite (f64_round (of_int (sint i)))"

fun f64_div :: "float64 \<Rightarrow> float64 \<Rightarrow> float64" where
  "f64_div (Finite a) (Finite b) =
     (if b = 0 then (if a = 0 then NaN else if 0 < a then PosInf else NegInf)
      else Finite (f64_round (a / b)))"
| "f64_div NaN _ = NaN"
| "f64_div _ NaN = NaN"
| "f64_div (Finite a) _ = Finite 0"
| "f64_div PosInf (Finite b) = (if 0 \<le> b then PosInf else NegInf)"
| "f64_div NegInf (Finite b) = (if 0 \<le> b then NegInf else PosInf)"
| "f64_div _ _ = NaN"

fun math_Ceil :: "float64 \<Rightarrow> float64" where
  "math_Ceil (Finite x) = Finite (of_int \<lceil>x\<rceil>)"
| "math_Ceil x = x"

text \<open>
  The conversion \<^verbatim>\<open>int(x)\<close> of a \<^verbatim>\<open>float64\<close> drops the fraction. Go leaves the result
  open when the value does not fit; amd64 yields the least \<^verbatim>\<open>int64\<close>.
\<close>

fun int_of_float64 :: "float64 \<Rightarrow> int64" where
  "int_of_float64 (Finite x) =
     (let t = (if 0 \<le> x then \<lfloor>x\<rfloor> else \<lceil>x\<rceil>)
      in if - (2 ^ 63) \<le> t \<and> t < 2 ^ 63 then word_of_int t else word_of_int (- (2 ^ 63)))"
| "int_of_float64 _ = word_of_int (- (2 ^ 63))"

section \<open>ServiceService\<close>

definition GetServices ::
  "database \<Rightarrow> ServiceQuery \<Rightarrow> (error + ServiceListResponse) \<times> sql_call list" where
  "GetServices db query0 =
     (let query1 = (if sint (ServiceQuery.Page query0) \<le> 0
                    then query0\<lparr>ServiceQuery.Page := 1\<rparr> else query0);
          query2 = (if sint (ServiceQuery.PageSize query1) \<le> 0
                    then query1\<lparr>ServiceQuery.PageSize := 12\<rparr> else query1);
          query3 = (if 100 < sint (ServiceQuery.PageSize query2)
                    then query2\<lparr>ServiceQuery.PageSize := 100\<rparr> else query2);
          query = (if SortDir query3 \<noteq> ''asc'' \<and> SortDir query3 \<noteq> ''desc''
                   then query3\<lparr>SortDir := ''asc''\<rparr> else query3)
      in case GetAll db query of
           (Inl err, t) \<Rightarrow> (Inl (Err (''failed to get services: '' @ Error err)), t)
         | (Inr (svcs, total'), t) \<Rightarrow>
             (let totalPages =
                    int_of_float64 (math_Ceil (f64_div (float64_of_int total')
                      (float64_of_int (ServiceQuery.PageSize query))))
              in (Inr \<lparr>Services = svcs, Total = total', Page = ServiceQuery.Page query,
                       PageSize = ServiceQuery.PageSize query, TotalPages = totalPages\<rparr>, t)))"

definition GetServiceByID ::
  "database \<Rightarrow> int64 \<Rightarrow> (error + ServiceWithVersions) \<times> sql_call list" where
  "GetServiceByID db i =
     (if sint i \<le> 0 then (Inl (Err (''invalid service ID: '' @ fmt_d (sint i))), [])
      else (case GetByID db i of
              (Inl err, t) \<Rightarrow> (Inl (Err (''failed to get service: '' @ Error err)), t)
            | (Inr None, t) \<Rightarrow> (Inl (Err ''service not found''), t)
            | (Inr (Some service), t) \<Rightarrow> (Inr service, t)))"

section \<open>ServiceHandler\<close>

text \<open>
  \<^verbatim>\<open>strconv.Atoi\<close>: an optional sign and at least one decimal digit, within the range of
  \<^verbatim>\<open>int\<close>. \<open>None\<close> stands for a non-nil error of either kind.
\<close>

definition is_digit :: "char \<Rightarrow> bool" where
  "is_digit c = (CHR ''0'' \<le> c \<and> c \<le> CHR ''9'')"

definition digit_val :: "char \<Rightarrow> int" where
  "digit_val c = of_char c - 48"

definition parse_digits :: "string \<Rightarrow> int" where
  "parse_digits ds = foldl (\<lambda>n c. 10 * n + digit_val c) 0 ds"

definition Atoi :: "string \<Rightarrow> int64 option" where
  "Atoi s =
     (let neg = (s \<noteq> [] \<and> hd s = CHR ''-'');
          ds = (if s \<noteq> [] \<and> (hd s = CHR ''-'' \<or> hd s = CHR ''+'') then tl s else s)
      in if ds = [] \<or> \<not> list_all is_digit ds then None
         else (let n = parse_digits ds
               in if neg then (if 2 ^ 63 < n then None else Some (word_of_int (- n)))
                  else (if 2 ^ 63 \<le> n then None else Some (word_of_int n))))"

text \<open>
  A response: \<^verbatim>\<open>http.Error\<close> with its message and status code, or the JSON encoding of a
  value with status 200.
\<close>

datatype 'a response = http_Error string nat | json 'a

text \<open>
  The handler of \<^verbatim>\<open>GET /api/v1/services/{id}\<close>; \<open>vars\<close> are the path variables of the
  route.
\<close>

definition Handler_GetServiceByID ::
  "database \<Rightarrow> (string \<Rightarrow> string option) \<Rightarrow> ServiceWithVersions response \<times> sql_call list" where
  "Handler_GetServiceByID db vars =
     (case vars ''id'' of
        None \<Rightarrow> (http_Error ''Service ID is required'' 400, [])
      | Some idStr \<Rightarrow>
          (case Atoi idStr of
             None \<Rightarrow> (http_Error ''Invalid service ID'' 400, [])
           | Some i \<Rightarrow>
               (case GetServiceByID db i of
                  (Inl err, t) \<Rightarrow>
                    (if Error err = ''service not found''
                     then (http_Error ''Service not found'' 404, t)
                     else (http_Error ''Internal server error'' 500, t))
                | (Inr service, t) \<Rightarrow> (json service, t))))"

section \<open>Closed forms\<close>

text \<open>
  The pieces of \<open>GetServices\<close> and \<open>GetAll\<close> by name: the query after validation, the
  clauses built from it, the rows of the page, the statements issued and the page count.
  The lemmas below show that the functions above compute exactly these.
\<close>

definition normalized :: "ServiceQuery \<Rightarrow> ServiceQuery" where
  "normalized q =
     q\<lparr>ServiceQuery.Page := (if sint (ServiceQuery.Page q) \<le> 0 then 1 else ServiceQuery.Page q),
       ServiceQuery.PageSize :=
         (if sint (ServiceQuery.PageSize q) \<le> 0 then 12
          else if 100 < sint (ServiceQuery.PageSize q) then 100 else ServiceQuery.PageSize q),
       SortDir := (if SortDir q \<noteq> ''asc'' \<and> SortDir q \<noteq> ''desc'' then ''asc'' else SortDir q)\<rparr>"

definition whereClause_of :: "ServiceQuery \<Rightarrow> where_clause" where
  "whereClause_of q =
     (if Search q \<noteq> ''''
      then NameLikeOrDescriptionLike (''%'' @ Search q @ ''%'') (''%'' @ Search q @ ''%'')
      else NoWhere)"

definition orderBy_of :: "ServiceQuery \<Rightarrow> column \<times> direction" where
  "orderBy_of q =
     (let direction = (if ToUpper (SortDir q) = ''DESC'' then DESC else ASC)
      in if SortBy q = ''name'' then (s_name, direction)
         else if SortBy q = ''created_at'' then (s_created_at, direction)
         else if SortBy q = ''updated_at'' then (s_updated_at, direction)
         else (s_name, ASC))"

definition offset_of :: "ServiceQuery \<Rightarrow> int64" where
  "offset_of q = (ServiceQuery.Page q - 1) * ServiceQuery.PageSize q"

definition versions_of :: "database \<Rightarrow> int64 \<Rightarrow> ServiceVersion list" where
  "versions_of db i =
     rev (sort_key ServiceVersion.CreatedAt (filter (\<lambda>v. ServiceID v = i) (service_versions db)))"

definition with_versions :: "database \<Rightarrow> Service \<Rightarrow> ServiceWithVersions" where
  "with_versions db s = \<lparr>Service = s, Versions = versions_of db (Service.ID s)\<rparr>"

definition matching :: "database \<Rightarrow> ServiceQuery \<Rightarrow> Service list" where
  "matching db q = where_rows (whereClause_of q) (services db)"

definition page_rows :: "database \<Rightarrow> ServiceQuery \<Rightarrow> Service list" where
  "page_rows db q =
     limit_offset (ServiceQuery.PageSize q) (offset_of q)
       (order_rows (fst (orderBy_of q)) (snd (orderBy_of q)) (matching db q))"

definition calls_of :: "database \<Rightarrow> ServiceQuery \<Rightarrow> sql_call list" where
  "calls_of db q =
     CountServices (whereClause_of q) #
     SelectServices (whereClause_of q) (fst (orderBy_of q)) (snd (orderBy_of q))
       (ServiceQuery.PageSize q) (offset_of q) #
     map (\<lambda>s. SelectVersionsByServiceID (Service.ID s)) (page_rows db q)"

definition total_pages :: "int64 \<Rightarrow> int64 \<Rightarrow> int64" where
  "total_pages n ps =
     int_of_float64 (math_Ceil (f64_div (float64_of_int n) (float64_of_int ps)))"

section \<open>What the claims speak of\<close>

text \<open>
  A list of services is in ascending order by a column when no row has a greater key than
  a later row, and in descending order when no row has a smaller key than a later row.
\<close>

fun ascending_by :: "column \<Rightarrow> Service list \<Rightarrow> bool" where
  "ascending_by s_name rows = sorted_wrt (\<lambda>a b. Name a \<le> Name b) rows"
| "ascending_by s_created_at rows =
     sorted_wrt (\<lambda>a b. Service.CreatedAt a \<le> Service.CreatedAt b) rows"
| "ascending_by s_updated_at rows = sorted_wrt (\<lambda>a b. UpdatedAt a \<le> UpdatedAt b) rows"

fun descending_by :: "column \<Rightarrow> Service list \<Rightarrow> bool" where
  "descending_by s_name rows = sorted_wrt (\<lambda>a b. Name b \<le> Name a) rows"
| "descending_by s_created_at rows =
     sorted_wrt (\<lambda>a b. Service.CreatedAt b \<le> Service.CreatedAt a) rows"
| "descending_by s_updated_at rows = sorted_wrt (\<lambda>a b. UpdatedAt b \<le> UpdatedAt a) rows"

fun ordered_by :: "column \<Rightarrow> direction \<Rightarrow> Service list \<Rightarrow> bool" where
  "ordered_by col ASC rows = ascending_by col rows"
| "ordered_by col DESC rows = descending_by col rows"


text \<open>
  A text contains a string under the collation of \<^verbatim>\<open>LIKE\<close> when the characters of the
  string are a contiguous part of the characters of the text, read as the store reads a
  text (the UTF-8 characters before its first NUL byte), once upper and lower case ASCII
  letters are identified. A service matches a search string when its name or its
  description contains it.
\<close>

definition contains_nocase :: "string \<Rightarrow> string \<Rightarrow> bool" where
  "contains_nocase needle hay \<longleftrightarrow>
     sublist (map sqlite3Tolower (utf8_chars needle)) (map sqlite3Tolower (sql_chars hay))"

definition matches_search :: "string \<Rightarrow> Service \<Rightarrow> bool" where
  "matches_search needle s \<longleftrightarrow>
     contains_nocase needle (Name s) \<or> contains_nocase needle (Description s)"

section \<open>Sample data\<close>

text \<open>
  A small store whose driver never fails: three of the services the repository seeds,
  with versions, at distinct times.
\<close>

definition locate_us :: Service where
  "locate_us = \<lparr>Service.ID = 1, Name = ''Locate Us'', Description = ''Find a branch'',
     CreatedAt = 100, UpdatedAt = 900\<rparr>"

definition collect_monday :: Service where
  "collect_monday = \<lparr>Service.ID = 2, Name = ''Collect Monday'', Description = ''Weekly pickup'',
     CreatedAt = 200, UpdatedAt = 800\<rparr>"

definition contact_us :: Service where
  "contact_us = \<lparr>Service.ID = 3, Name = ''Contact Us'', Description = ''Reach support'',
     CreatedAt = 300, UpdatedAt = 700\<rparr>"

definition version :: "int64 \<Rightarrow> int64 \<Rightarrow> string \<Rightarrow> time \<Rightarrow> ServiceVersion" where
  "version i s v c = \<lparr>ServiceVersion.ID = i, ServiceID = s, Version = v, CreatedAt = c\<rparr>"

definition sample_db :: database where
  "sample_db =
     \<lparr>services = [locate_us, collect_monday, contact_us],
      service_versions =
        [version 1 1 ''1.0.0'' 110, version 2 1 ''1.1.0'' 120,
         version 3 2 ''1.0.0'' 210, version 4 2 ''1.2.0'' 220,
         version 5 3 ''1.0.0'' 310],
      fault = (\<lambda>_. None)\<rparr>"

text \<open>The same store behind a driver that fails every statement.\<close>

definition locked_db :: database where
  "locked_db = sample_db\<lparr>fault := (\<lambda>_. Some (Err ''database is locked''))\<rparr>"

text \<open>
  A store of \<open>n\<close> services with distinct ids and names and no versions, whose driver
  never fails.
\<close>

definition numbered_service :: "nat \<Rightarrow> Service" where
  "numbered_service n =
     \<lparr>Service.ID = of_nat (Suc n), Name = fmt_nat n, Description = '''',
      CreatedAt = 0, UpdatedAt = 0\<rparr>"

definition numbered_db :: "nat \<Rightarrow> database" where
  "numbered_db n =
     \<lparr>services = map numbered_service [0..<n], service_versions = [], fault = (\<lambda>_. None)\<rparr>"

section \<open>The functions compute their closed forms\<close>

lemma orderBy_of_empty: "SortBy q = '''' \<Longrightarrow> orderBy_of q = (s_name, ASC)"
  by (simp add: orderBy_of_def)

lemma scan_rows_Inr:
  "scan_rows db rows = (Inr items, t) \<Longrightarrow>
     items = map (with_versions db) rows \<and>
     t = map (\<lambda>s. SelectVersionsByServiceID (Service.ID s)) rows"
proof (induction rows arbitrary: items t)
  case Nil
  then show ?case by simp
next
  case (Cons s rows)
  then show ?case
    by (auto simp: getVersionsByServiceID_def select_versions_def run_def with_versions_def
        versions_of_def split: option.splits sum.splits prod.splits)
qed

lemma scan_rows_ok:
  "(\<forall>s \<in> set rows. fault db (SelectVersionsByServiceID (Service.ID s)) = None) \<Longrightarrow>
     scan_rows db rows =
       (Inr (map (with_versions db) rows), map (\<lambda>s. SelectVersionsByServiceID (Service.ID s)) rows)"
  by (induction rows)
    (auto simp: getVersionsByServiceID_def select_versions_def run_def with_versions_def
      versions_of_def)

lemma GetAll_Inr:
  assumes "GetAll db q = (Inr (items, n), t)"
  shows "items = map (with_versions db) (page_rows db q)"
    and "n = of_nat (length (matching db q))"
    and "t = calls_of db q"
proof -
  from assms obtain rows t3 where
    c: "fault db (CountServices (whereClause_of q)) = None" and
    s: "fault db (SelectServices (whereClause_of q) (fst (orderBy_of q)) (snd (orderBy_of q))
          (ServiceQuery.PageSize q) (offset_of q)) = None" and
    r: "scan_rows db (page_rows db q) = (Inr items, t3)" and
    n: "n = of_nat (length (matching db q))" and
    t: "t = [CountServices (whereClause_of q),
             SelectServices (whereClause_of q) (fst (orderBy_of q)) (snd (orderBy_of q))
               (ServiceQuery.PageSize q) (offset_of q)] @ t3"
    by (auto simp: GetAll_def Let_def count_services_def select_services_def run_def
        whereClause_of_def orderBy_of_def offset_of_def matching_def page_rows_def
        split: option.splits sum.splits prod.splits if_splits)
  from scan_rows_Inr [OF r] show "items = map (with_versions db) (page_rows db q)"
    and "t = calls_of db q" using t by (simp_all add: calls_of_def)
  show "n = of_nat (length (matching db q))" by (rule n)
qed

lemma GetAll_ok:
  assumes "\<forall>c. fault db c = None"
  shows "GetAll db q =
     (Inr (map (with_versions db) (page_rows db q), of_nat (length (matching db q))),
      calls_of db q)"
  using assms
  by (simp add: GetAll_def Let_def count_services_def select_services_def run_def scan_rows_ok
      whereClause_of_def orderBy_of_def offset_of_def matching_def page_rows_def calls_of_def)

lemma GetServices_unfold:
  "GetServices db q =
     (case GetAll db (normalized q) of
        (Inl err, t) \<Rightarrow> (Inl (Err (''failed to get services: '' @ Error err)), t)
      | (Inr (svcs, n), t) \<Rightarrow>
          (Inr \<lparr>Services = svcs, Total = n, Page = ServiceQuery.Page (normalized q),
                 PageSize = ServiceQuery.PageSize (normalized q),
                 TotalPages = total_pages n (ServiceQuery.PageSize (normalized q))\<rparr>, t))"
proof -
  have n: "(let query1 = (if sint (ServiceQuery.Page q) \<le> 0
                    then q\<lparr>ServiceQuery.Page := 1\<rparr> else q);
          query2 = (if sint (ServiceQuery.PageSize query1) \<le> 0
                    then query1\<lparr>ServiceQuery.PageSize := 12\<rparr> else query1);
          query3 = (if 100 < sint (ServiceQuery.PageSize query2)
                    then query2\<lparr>ServiceQuery.PageSize := 100\<rparr> else query2)
      in (if SortDir query3 \<noteq> ''asc'' \<and> SortDir query3 \<noteq> ''desc''
                   then query3\<lparr>SortDir := ''asc''\<rparr> else query3)) = normalized q"
    by (simp add: normalized_def Let_def)
  show ?thesis
    unfolding GetServices_def total_pages_def Let_def
    unfolding n [unfolded Let_def]
    by (rule refl)
qed

lemma GetServices_Inr:
  assumes "GetServices db q = (Inr r, t)"
  shows "r = \<lparr>Services = map (with_versions db) (page_rows db (normalized q)),
              Total = of_nat (length (matching db (normalized q))),
              Page = ServiceQuery.Page (normalized q),
              PageSize = ServiceQuery.PageSize (normalized q),
              TotalPages = total_pages (of_nat (length (matching db (normalized q))))
                (ServiceQuery.PageSize (normalized q))\<rparr>"
    and "t = calls_of db (normalized q)"
proof -
  from assms obtain items n where
    g: "GetAll db (normalized q) = (Inr (items, n), t)" and
    r: "r = \<lparr>Services = items, Total = n, Page = ServiceQuery.Page (normalized q),
              PageSize = ServiceQuery.PageSize (normalized q),
              TotalPages = total_pages n (ServiceQuery.PageSize (normalized q))\<rparr>"
    by (auto simp: GetServices_unfold split: prod.splits sum.splits)
  from GetAll_Inr [OF g] r show "r = \<lparr>Services = map (with_versions db) (page_rows db (normalized q)),
              Total = of_nat (length (matching db (normalized q))),
              Page = ServiceQuery.Page (normalized q),
              PageSize = ServiceQuery.PageSize (normalized q),
              TotalPages = total_pages (of_nat (length (matching db (normalized q))))
                (ServiceQuery.PageSize (normalized q))\<rparr>"
    and "t = calls_of db (normalized q)" by simp_all
qed

lemma GetServices_ok:
  assumes "\<forall>c. fault db c = None"
  shows "GetServices db q =
     (Inr \<lparr>Services = map (with_versions db) (page_rows db (normalized q)),
              Total = of_nat (length (matching db (normalized q))),
              Page = ServiceQuery.Page (normalized q),
              PageSize = ServiceQuery.PageSize (normalized q),
              TotalPages = total_pages (of_nat (length (matching db (normalized q))))
                (ServiceQuery.PageSize (normalized q))\<rparr>,
      calls_of db (normalized q))"
  by (simp add: GetServices_unfold GetAll_ok [OF assms])

section \<open>The statements issued\<close>

lemma scan_rows_calls:
  "scan_rows db rows = (res, t) \<Longrightarrow> c \<in> set t \<Longrightarrow> \<exists>i. c = SelectVersionsByServiceID i"
  by (induction rows arbitrary: res t c)
    (auto simp: getVersionsByServiceID_def select_versions_def run_def
      split: option.splits sum.splits prod.splits)

lemma GetAll_unfold:
  "GetAll db q =
     (case count_services db (whereClause_of q) of
        (Inl err, t1) \<Rightarrow> (Inl err, t1)
      | (Inr n, t1) \<Rightarrow>
          (case select_services db (whereClause_of q) (fst (orderBy_of q)) (snd (orderBy_of q))
                  (ServiceQuery.PageSize q) (offset_of q) of
             (Inl err, t2) \<Rightarrow> (Inl err, t1 @ t2)
           | (Inr rows, t2) \<Rightarrow>
               (case scan_rows db rows of
                  (Inl err, t3) \<Rightarrow> (Inl err, t1 @ t2 @ t3)
                | (Inr svcs, t3) \<Rightarrow> (Inr (svcs, n), t1 @ t2 @ t3))))"
proof -
  have o: "(if SortBy q \<noteq> '''' then
               (if SortBy q = ''name''
                then (s_name, if ToUpper (SortDir q) = ''DESC'' then DESC else ASC)
                else if SortBy q = ''created_at''
                then (s_created_at, if ToUpper (SortDir q) = ''DESC'' then DESC else ASC)
                else if SortBy q = ''updated_at''
                then (s_updated_at, if ToUpper (SortDir q) = ''DESC'' then DESC else ASC)
                else (s_name, ASC))
             else (s_name, ASC)) = orderBy_of q"
    by (simp add: orderBy_of_def Let_def)
  show ?thesis
    unfolding GetAll_def Let_def
    unfolding o whereClause_of_def [symmetric] offset_of_def [symmetric]
    by (rule refl)
qed

lemma GetAll_calls:
  assumes "SelectServices w col dir l off \<in> set (snd (GetAll db q))"
  shows "l = ServiceQuery.PageSize q \<and> off = offset_of q"
  using assms
  by (auto simp: GetAll_unfold count_services_def select_services_def run_def
      split: option.splits sum.splits prod.splits dest: scan_rows_calls)

lemma GetServices_calls:
  assumes "SelectServices w col dir l off \<in> set (snd (GetServices db q))"
  shows "l = ServiceQuery.PageSize (normalized q) \<and> off = offset_of (normalized q)"
proof -
  have "snd (GetServices db q) = snd (GetAll db (normalized q))"
    by (simp add: GetServices_unfold split: prod.splits sum.splits)
  with assms show ?thesis using GetAll_calls by simp
qed

lemma normalized_Page:
  "ServiceQuery.Page (normalized q) =
     (if sint (ServiceQuery.Page q) \<le> 0 then 1 else ServiceQuery.Page q)"
  by (simp add: normalized_def)

lemma normalized_PageSize:
  "ServiceQuery.PageSize (normalized q) =
     (if sint (ServiceQuery.PageSize q) \<le> 0 then 12
      else if 100 < sint (ServiceQuery.PageSize q) then 100 else ServiceQuery.PageSize q)"
  by (simp add: normalized_def)

lemma normalized_Page_bounds: "1 \<le> sint (ServiceQuery.Page (normalized q))"
  by (simp add: normalized_Page)

lemma normalized_PageSize_bounds:
  "1 \<le> sint (ServiceQuery.PageSize (normalized q)) \<and>
   sint (ServiceQuery.PageSize (normalized q)) \<le> 100"
  by (simp add: normalized_PageSize)

section \<open>Rounding to float64\<close>

lemma round_half_even_of_int: "round_half_even (of_int k) = k"
  by (simp add: round_half_even_def)

lemma round_half_even_ge: "\<lfloor>y\<rfloor> \<le> round_half_even y"
  by (simp add: round_half_even_def Let_def)

lemma round_half_even_le: "round_half_even y \<le> \<lfloor>y\<rfloor> + 1"
  by (simp add: round_half_even_def Let_def)

lemma round_half_even_up: "1 / 2 < y - of_int \<lfloor>y\<rfloor> \<Longrightarrow> round_half_even y = \<lfloor>y\<rfloor> + 1"
  by (simp add: round_half_even_def Let_def)

lemma two_powi_nonpos: "e \<le> 0 \<Longrightarrow> (2::rat) powi e = 1 / 2 ^ nat (- e)"
  by (cases "e = 0") (simp_all add: power_int_def power_one_over [symmetric] inverse_eq_divide)

lemma bitlen_pos: "0 < n \<Longrightarrow> 1 \<le> bitlen n"
  using bitlen_eq_zero_iff [of n] bitlen_nonneg [of n] by linarith

lemma ilog2_of_int: "0 < n \<Longrightarrow> ilog2 (of_int n) = bitlen n - 1"
  by (simp add: ilog2_def)

lemma ilog2_le:
  assumes "0 < x"
  shows "2 powi (ilog2 x) \<le> x"
proof (cases "1 \<le> x")
  case True
  then have f: "0 < \<lfloor>x\<rfloor>" by simp
  from bitlen_pos [OF f] have nn: "0 \<le> bitlen \<lfloor>x\<rfloor> - 1" by simp
  from bitlen_bounds [OF f] have "2 ^ nat (bitlen \<lfloor>x\<rfloor> - 1) \<le> \<lfloor>x\<rfloor>" by simp
  then have "(of_int (2 ^ nat (bitlen \<lfloor>x\<rfloor> - 1)) :: rat) \<le> of_int \<lfloor>x\<rfloor>"
    by (simp only: of_int_le_iff)
  also have "\<dots> \<le> x" by simp
  finally have "(2::rat) ^ nat (bitlen \<lfloor>x\<rfloor> - 1) \<le> x" by simp
  with True nn show ?thesis by (simp add: ilog2_def power_int_def)
next
  case False
  with assms have "1 < 1 / x" by simp
  then have m: "0 < \<lceil>1 / x\<rceil> - 1" by (simp add: less_ceiling_iff)
  define N where "N = nat (bitlen (\<lceil>1 / x\<rceil> - 1))"
  from bitlen_pos [OF m] have N: "bitlen (\<lceil>1 / x\<rceil> - 1) = int N" "0 < N"
    by (simp_all add: N_def)
  from bitlen_bounds [OF m] have "\<lceil>1 / x\<rceil> - 1 < 2 ^ N" by (simp add: N_def)
  then have "\<lceil>1 / x\<rceil> \<le> 2 ^ N" by simp
  then have "1 / x \<le> of_int (2 ^ N)" by (simp only: ceiling_le_iff)
  then have "1 / x \<le> 2 ^ N" by simp
  with assms have "1 \<le> 2 ^ N * x" by (simp add: field_simps)
  then have "1 / 2 ^ N \<le> x" by (simp add: field_simps)
  moreover have "(2::rat) powi (ilog2 x) = 1 / 2 ^ N"
    using False N by (simp add: ilog2_def two_powi_nonpos)
  ultimately show ?thesis by simp
qed

lemma f64_round_of_int:
  assumes "0 \<le> n" and "n \<le> 2 ^ 53"
  shows "f64_round (of_int n) = of_int n"
proof (cases "n = 0")
  case True
  then show ?thesis by (simp add: f64_round_def)
next
  case False
  with assms have pos: "0 < n" by simp
  define e where "e = bitlen n - 53"
  have il: "ilog2 \<bar>of_int n\<bar> - 52 = e"
    using pos by (simp add: ilog2_of_int e_def)
  from assms have "n < 2 ^ nat 54" by simp
  then have "bitlen n \<le> 54" by (simp add: bitlen_le_iff_power)
  then have e1: "e \<le> 1" by (simp add: e_def)
  have r: "f64_round (of_int n) =
      of_int (round_half_even (of_int n / 2 powi e)) * 2 powi e"
    using pos il by (simp add: f64_round_def Let_def)
  show ?thesis
  proof (cases "e \<le> 0")
    case True
    have "(of_int n :: rat) / 2 powi e = of_int (n * 2 ^ nat (- e))"
      by (simp add: two_powi_nonpos [OF True])
    then have "round_half_even (of_int n / 2 powi e) = n * 2 ^ nat (- e)"
      by (simp only: round_half_even_of_int)
    with r show ?thesis by (simp add: two_powi_nonpos [OF True])
  next
    case False
    with e1 have e: "e = 1" by simp
    then have "bitlen n = 54" by (simp add: e_def)
    with bitlen_bounds [OF pos] have "2 ^ 53 \<le> n" by simp
    with assms have n: "n = 2 ^ 53" by simp
    have "(of_int n :: rat) / 2 powi e = of_int (2 ^ 52)"
      by (simp add: n e)
    then have "round_half_even (of_int n / 2 powi e) = 2 ^ 52"
      by (simp only: round_half_even_of_int)
    with r show ?thesis by (simp add: n e)
  qed
qed


lemma f64_round_div_bounds:
  fixes t p :: int
  assumes t: "0 < t" "t \<le> 2 ^ 53" and p: "1 \<le> p" "p \<le> 100" and nd: "\<not> p dvd t"
  shows "of_int (t div p) < f64_round (of_int t / of_int p) \<and>
         f64_round (of_int t / of_int p) \<le> of_int (t div p + 1)"
proof -
  define q :: rat where "q = of_int t / of_int p"
  define k where "k = t div p"
  define r where "r = t mod p"
  from nd p have p2: "2 \<le> p" by (cases "p = 1") auto
  have "0 \<le> t mod p" "t mod p < p" using p2 by simp_all
  moreover have "t mod p \<noteq> 0" using nd by (simp add: dvd_eq_mod_eq_0)
  ultimately have r: "0 < r" "r < p" by (simp_all add: r_def)
  have tkr: "t = k * p + r" by (simp add: k_def r_def)
  have qpos: "0 < q" using t p2 by (simp add: q_def)
  have "of_int t \<le> (2::rat) ^ 53" using t(2) by (metis of_int_le_iff of_int_numeral of_int_power)
  moreover have "(2::rat) \<le> of_int p" using p2 by simp
  ultimately have "of_int t * 2 \<le> (2::rat) ^ 53 * of_int p"
    using t(1) by (intro mult_mono) simp_all
  then have qlt: "q < 2 ^ 53" using p2 by (simp add: q_def field_simps)
  define b where "b = ilog2 q"
  have bq: "2 powi b \<le> q" unfolding b_def by (rule ilog2_le [OF qpos])
  have b52: "b \<le> 52"
  proof (rule ccontr)
    assume "\<not> b \<le> 52"
    then have "53 \<le> b" by simp
    then have "(2::rat) powi 53 \<le> 2 powi b" by (intro power_int_increasing) simp_all
    with bq qlt show False by simp
  qed
  define N where "N = nat (52 - b)"
  define S :: int where "S = 2 ^ N"
  have Spos: "0 < S" by (simp add: S_def)
  have e: "b - 52 \<le> 0" "nat (- (b - 52)) = N" using b52 by (simp_all add: N_def)
  have pw: "(2::rat) powi (b - 52) = 1 / of_int S"
    using two_powi_nonpos [OF e(1)] e(2) by (simp add: S_def)
  define y :: rat where "y = q * of_int S"
  have fr: "f64_round q = of_int (round_half_even y) / of_int S"
    using qpos pw by (simp add: f64_round_def Let_def b_def [symmetric] y_def)
  have "b = 52 - int N" using b52 by (simp add: N_def)
  then have "(2::rat) powi b = 2 ^ 52 / of_int S"
    by (simp add: power_int_diff S_def)
  with bq have "(2::rat) ^ 52 / of_int S \<le> of_int t / of_int p" by (simp add: q_def)
  then have "(2::rat) ^ 52 * of_int p \<le> of_int t * of_int S"
    using Spos p2 by (simp add: field_simps)
  then have "(of_int (2 ^ 52 * p) :: rat) \<le> of_int (t * S)" by simp
  then have i: "2 ^ 52 * p \<le> t * S" by (simp only: of_int_le_iff)
  define K where "K = k * S"
  have yK: "y - of_int K = of_int (r * S) / of_int p"
    using p2 by (simp add: y_def q_def K_def tkr field_simps)
  have "0 < (of_int (r * S) :: rat) / of_int p" using r Spos p2 by simp
  with yK have Ky: "of_int K < y" by simp
  have "(of_int (r * S) :: rat) / of_int p < of_int S"
    using r Spos p2 by (simp add: field_simps)
  with yK have yKS: "y < of_int (K + S)" by simp
  have fl: "K \<le> \<lfloor>y\<rfloor>" using Ky by (simp add: le_floor_iff)
  from yKS have "\<lfloor>y\<rfloor> < K + S" by (simp only: floor_less_iff)
  with round_half_even_le [of y] have up: "round_half_even y \<le> K + S" by simp
  have lo: "K + 1 \<le> round_half_even y"
  proof (cases "K + 1 \<le> \<lfloor>y\<rfloor>")
    case True
    with round_half_even_ge [of y] show ?thesis by simp
  next
    case False
    with fl have fK: "\<lfloor>y\<rfloor> = K" by simp
    have "p < 2 * (r * S)"
    proof (rule ccontr)
      assume "\<not> p < 2 * (r * S)"
      then have le: "2 * (r * S) \<le> p" by simp
      define RS where "RS = r * S"
      define TS where "TS = t * S"
      from le have "2 * RS \<le> p" by (simp add: RS_def)
      moreover from i have "2 ^ 52 * p \<le> TS" by (simp add: TS_def)
      ultimately have "2 ^ 53 * RS \<le> TS" by simp
      then have "(2 ^ 53 * r) * S \<le> t * S" by (simp add: RS_def TS_def mult.assoc)
      from mult_right_le_imp_le [OF this Spos] have tr: "2 ^ 53 * r \<le> t" .
      with t(2) r(1) have r1: "r = 1" by simp
      with tr t(2) have t53: "t = 2 ^ 53" by simp
      from i t53 have "2 ^ 52 * p \<le> 2 ^ 52 * (2 * S)" by simp
      then have "p \<le> 2 * S" by simp
      with le r1 have pS: "p = 2 ^ Suc N" by (simp add: S_def)
      have "Suc N \<le> 53"
      proof (rule ccontr)
        assume "\<not> Suc N \<le> 53"
        then have "7 \<le> Suc N" by simp
        then have "(2::int) ^ 7 \<le> 2 ^ Suc N" by (intro power_increasing) simp_all
        with pS p(2) show False by simp
      qed
      then have "(2::int) ^ Suc N dvd 2 ^ 53" by (rule le_imp_power_dvd)
      with pS t53 nd show False by simp
    qed
    then have "(of_int p :: rat) < of_int (2 * (r * S))" by (simp only: of_int_less_iff)
    then have "1 / 2 < (of_int (r * S) :: rat) / of_int p"
      using p2 by (simp add: field_simps)
    with yK fK have "1 / 2 < y - of_int \<lfloor>y\<rfloor>" by simp
    from round_half_even_up [OF this] fK show ?thesis by simp
  qed
  from lo have "of_int K < (of_int (round_half_even y) :: rat)" by simp
  then have "(of_int k :: rat) * of_int S < of_int (round_half_even y)" by (simp add: K_def)
  then have l1: "of_int k < f64_round q"
    using Spos by (simp add: fr field_simps)
  from up have "(of_int (round_half_even y) :: rat) \<le> of_int (K + S)" by (simp only: of_int_le_iff)
  then have "(of_int (round_half_even y) :: rat) \<le> (of_int k + 1) * of_int S"
    by (simp add: K_def algebra_simps)
  then have l2: "f64_round q \<le> of_int (k + 1)"
    using Spos by (simp add: fr field_simps)
  from l1 l2 show ?thesis by (simp add: q_def k_def)
qed

lemma ceiling_f64_round_div:
  fixes t p :: int
  assumes t: "0 \<le> t" "t \<le> 2 ^ 53" and p: "1 \<le> p" "p \<le> 100"
  shows "\<lceil>f64_round (of_int t / of_int p)\<rceil> = \<lceil>(of_int t :: rat) / of_int p\<rceil>"
proof (cases "p dvd t")
  case True
  then obtain k where k: "t = p * k" by (auto simp: dvd_def)
  with t p have k0: "0 \<le> k" by (simp add: zero_le_mult_iff)
  have "k \<le> p * k" using p k0 by (simp add: mult_le_cancel_right1)
  with t k have k53: "k \<le> 2 ^ 53" by simp
  have "(of_int t :: rat) / of_int p = of_int k" using p k by simp
  with f64_round_of_int [OF k0 k53] show ?thesis by simp
next
  case False
  with t have tpos: "0 < t" by (cases "t = 0") auto
  from f64_round_div_bounds [OF tpos t(2) p False]
  have "\<lceil>f64_round (of_int t / of_int p)\<rceil> = t div p + 1"
    by (intro ceiling_unique) simp_all
  moreover have "\<lceil>(of_int t :: rat) / of_int p\<rceil> = t div p + 1"
  proof -
    have "t mod p \<noteq> 0" using False by (simp add: dvd_eq_mod_eq_0)
    moreover have "0 \<le> t mod p" "t mod p < p" using p by simp_all
    ultimately have m: "0 < t mod p" by simp
    have "(of_int t :: rat) = of_int (t div p) * of_int p + of_int (t mod p)"
      by (metis of_int_add of_int_mult div_mult_mod_eq)
    then have eq: "(of_int t :: rat) / of_int p = of_int (t div p) + of_int (t mod p) / of_int p"
      using p by (simp add: field_simps)
    have "0 < (of_int (t mod p) :: rat) / of_int p" using m p by simp
    moreover have "(of_int (t mod p) :: rat) \<le> of_int p"
      using \<open>t mod p < p\<close> by (simp only: of_int_le_iff)
    then have "(of_int (t mod p) :: rat) / of_int p \<le> 1"
      using p by (simp add: field_simps)
    ultimately show ?thesis
      unfolding eq by (intro ceiling_unique) simp_all
  qed
  ultimately show ?thesis by simp
qed

lemma total_pages_word:
  assumes n: "0 \<le> sint n" "sint n \<le> 2 ^ 53" and ps: "1 \<le> sint ps" "sint ps \<le> 100"
  shows "total_pages n ps = word_of_int \<lceil>(of_int (sint n) :: rat) / of_int (sint ps)\<rceil>"
    and "0 \<le> \<lceil>(of_int (sint n) :: rat) / of_int (sint ps)\<rceil>"
    and "\<lceil>(of_int (sint n) :: rat) / of_int (sint ps)\<rceil> \<le> 2 ^ 53"
proof -
  define a where "a = sint n"
  define b where "b = sint ps"
  define c where "c = \<lceil>(of_int a :: rat) / of_int b\<rceil>"
  have a: "0 \<le> a" "a \<le> 2 ^ 53" and b: "1 \<le> b" "b \<le> 100"
    using n ps by (simp_all add: a_def b_def)
  have b53: "0 \<le> b" "b \<le> 2 ^ 53" using b by simp_all
  have fa: "float64_of_int n = Finite (of_int a)"
    unfolding float64_of_int_def a_def [symmetric] by (simp only: f64_round_of_int [OF a])
  have fb: "float64_of_int ps = Finite (of_int b)"
    unfolding float64_of_int_def b_def [symmetric] by (simp only: f64_round_of_int [OF b53])
  have nz: "(of_int b :: rat) \<noteq> 0" using b by simp
  have d: "math_Ceil (f64_div (float64_of_int n) (float64_of_int ps)) = Finite (of_int c)"
    unfolding fa fb using nz by (simp add: c_def ceiling_f64_round_div [OF a b])
  have "0 \<le> (of_int a :: rat) / of_int b" using a b by simp
  then have c0: "0 \<le> c" by (simp add: c_def)
  have "(of_int a :: rat) \<le> of_int a * of_int b"
    using a b by (simp add: mult_le_cancel_left1)
  then have "(of_int a :: rat) / of_int b \<le> of_int a"
    using b by (simp add: field_simps)
  then have "c \<le> a" unfolding c_def by (simp only: ceiling_le_iff)
  with a have c53: "c \<le> 2 ^ 53" by simp
  have "total_pages n ps = word_of_int c"
    unfolding total_pages_def d using c0 c53 by simp
  then show "total_pages n ps = word_of_int \<lceil>(of_int (sint n) :: rat) / of_int (sint ps)\<rceil>"
    unfolding c_def a_def b_def by simp
  from c0 show "0 \<le> \<lceil>(of_int (sint n) :: rat) / of_int (sint ps)\<rceil>"
    unfolding c_def a_def b_def by simp
  from c53 show "\<lceil>(of_int (sint n) :: rat) / of_int (sint ps)\<rceil> \<le> 2 ^ 53"
    unfolding c_def a_def b_def by simp
qed

lemma total_pages_exact:
  assumes n: "0 \<le> sint n" "sint n \<le> 2 ^ 53" and ps: "1 \<le> sint ps" "sint ps \<le> 100"
  shows "sint (total_pages n ps) = \<lceil>(of_int (sint n) :: rat) / of_int (sint ps)\<rceil>"
proof -
  define c where "c = \<lceil>(of_int (sint n) :: rat) / of_int (sint ps)\<rceil>"
  from total_pages_word [OF n ps]
  have "total_pages n ps = word_of_int c" and c: "0 \<le> c" "c \<le> 2 ^ 53"
    unfolding c_def by simp_all
  moreover have "sint (word_of_int c :: int64) = c"
    using c by (simp add: sint_sbintrunc' signed_take_bit_int_eq_self)
  ultimately show ?thesis unfolding c_def by simp
qed

lemma total_pages_div:
  assumes n: "0 \<le> sint n" "sint n \<le> 2 ^ 53" and ps: "1 \<le> sint ps" "sint ps \<le> 100"
  shows "total_pages n ps = word_of_int (- (- sint n div sint ps))"
  unfolding total_pages_word(1) [OF assms] by (simp only: ceiling_divide_eq_div)


section \<open>Order of the rows of a page\<close>

lemma sorted_wrt_sort_key: "sorted_wrt (\<lambda>a b. f a \<le> f b) (sort_key f xs)"
  using sorted_sort_key [of f xs] by (simp add: sorted_map)

lemma sorted_wrt_rev_sort_key: "sorted_wrt (\<lambda>a b. f b \<le> f a) (rev (sort_key f xs))"
  using sorted_wrt_sort_key [of f xs] by (simp add: sorted_wrt_rev)

lemma ordered_by_order_rows: "ordered_by col dir (order_rows col dir rows)"
  by (cases col; cases dir) (simp_all add: sorted_wrt_sort_key sorted_wrt_rev_sort_key)

lemma sorted_wrt_limit_offset: "sorted_wrt P rows \<Longrightarrow> sorted_wrt P (limit_offset l off rows)"
  by (simp add: limit_offset_def Let_def sorted_wrt_take sorted_wrt_drop)

lemma ordered_by_limit_offset:
  "ordered_by col dir rows \<Longrightarrow> ordered_by col dir (limit_offset l off rows)"
  by (cases col; cases dir) (simp_all add: sorted_wrt_limit_offset)

lemma ordered_by_page_rows:
  "ordered_by (fst (orderBy_of q)) (snd (orderBy_of q)) (page_rows db q)"
  unfolding page_rows_def by (intro ordered_by_limit_offset ordered_by_order_rows)

lemma map_Service_with_versions: "map (Service \<circ> with_versions db) rows = rows"
  by (induction rows) (simp_all add: with_versions_def)

lemma ToUpper_asc_desc: "ToUpper ''desc'' = ''DESC''" "ToUpper ''asc'' \<noteq> ''DESC''"
  by (simp_all add: ToUpper_def)

lemma orderBy_of_normalized:
  "orderBy_of (normalized q) =
     (if SortBy q = ''name'' \<or> SortBy q = ''created_at'' \<or> SortBy q = ''updated_at''
      then (if SortBy q = ''name'' then s_name
            else if SortBy q = ''created_at'' then s_created_at else s_updated_at,
            if SortDir q = ''desc'' then DESC else ASC)
      else (s_name, ASC))"
proof -
  have d: "(ToUpper (SortDir (normalized q)) = ''DESC'') = (SortDir q = ''desc'')"
    using ToUpper_asc_desc by (auto simp: normalized_def)
  have s: "SortBy (normalized q) = SortBy q" by (simp add: normalized_def)
  show ?thesis unfolding orderBy_of_def Let_def d s by simp
qed

lemma GetServices_order:
  assumes "GetServices db q = (Inr r, t)"
  shows "ordered_by (fst (orderBy_of (normalized q))) (snd (orderBy_of (normalized q)))
           (map Service (Services r))"
    and "\<exists>w l off. t ! 1 = SelectServices w (fst (orderBy_of (normalized q)))
           (snd (orderBy_of (normalized q))) l off"
  using GetServices_Inr [OF assms] ordered_by_page_rows [of "normalized q" db]
  by (simp_all add: map_Service_with_versions calls_of_def)

section \<open>Versions of a service\<close>




section \<open>Reading a text as UTF-8 characters\<close>

lemma takeWhile_append_stop: "\<not> P y \<Longrightarrow> takeWhile P (xs @ y # ys) = takeWhile P xs"
  by (induction xs) simp_all

lemma dropWhile_append_stop: "\<not> P y \<Longrightarrow> dropWhile P (xs @ y # ys) = dropWhile P xs @ y # ys"
  by (induction xs) simp_all

lemma utf8_chars_single_byte:
  "(of_char b :: nat) < 192 \<Longrightarrow> utf8_chars (b # bs) = of_char b # utf8_chars bs"
  by (simp add: sqlite3Utf8Read_def)

lemma utf8_chars_append:
  "\<not> is_continuation y \<Longrightarrow> utf8_chars (xs @ y # ys) = utf8_chars xs @ utf8_chars (y # ys)"
proof (induction xs rule: utf8_chars.induct)
  case 1
  then show ?case by simp
next
  case (2 b bs)
  show ?case
  proof (cases "(of_char b :: nat) < 192")
    case True
    with 2 show ?thesis by (simp add: sqlite3Utf8Read_def)
  next
    case False
    with 2 show ?thesis
      by (simp add: sqlite3Utf8Read_def takeWhile_append_stop dropWhile_append_stop)
  qed
qed

lemma utf8_replace_ge: "128 \<le> utf8_replace c"
  by (simp add: utf8_replace_def)

lemma utf8_chars_ascii:
  "n \<in> set (utf8_chars s) \<Longrightarrow> n < 128 \<Longrightarrow> \<exists>b \<in> set s. (of_char b :: nat) = n"
proof (induction s rule: utf8_chars.induct)
  case 1
  then show ?case by simp
next
  case (2 b bs)
  show ?case
  proof (cases "(of_char b :: nat) < 192")
    case True
    with 2 show ?thesis by (auto simp: sqlite3Utf8Read_def)
  next
    case False
    from 2(2) have "n = utf8_replace (foldl utf8_shift (sqlite3Utf8Trans1 (of_char b))
              (takeWhile is_continuation bs)) \<or> n \<in> set (utf8_chars (dropWhile is_continuation bs))"
      using False by (simp add: sqlite3Utf8Read_def)
    then show ?thesis
    proof
      assume "n = utf8_replace (foldl utf8_shift (sqlite3Utf8Trans1 (of_char b))
              (takeWhile is_continuation bs))"
      with utf8_replace_ge 2(3) show ?thesis by (metis not_less)
    next
      assume "n \<in> set (utf8_chars (dropWhile is_continuation bs))"
      with 2(1,3) False have "\<exists>b \<in> set (dropWhile is_continuation bs). (of_char b :: nat) = n"
        by (simp add: sqlite3Utf8Read_def)
      then show ?thesis by (auto dest: set_dropWhileD)
    qed
  qed
qed

section \<open>LIKE and substrings\<close>

lemma of_char_percent: "(of_char b :: nat) = 37 \<Longrightarrow> b = CHR ''%''"
proof -
  assume "(of_char b :: nat) = 37"
  then have "(of_char b :: nat) = of_char CHR ''%''" by simp
  then show ?thesis by (simp only: of_char_eq_iff)
qed

lemma of_char_underscore: "(of_char b :: nat) = 95 \<Longrightarrow> b = CHR ''_''"
proof -
  assume "(of_char b :: nat) = 95"
  then have "(of_char b :: nat) = of_char CHR ''_''" by simp
  then show ?thesis by (simp only: of_char_eq_iff)
qed

lemma tolower_eq:
  "c = c2 \<or> (sqlite3Tolower c = sqlite3Tolower c2 \<and> c < 128 \<and> c2 < 128) \<longleftrightarrow>
   sqlite3Tolower c2 = sqlite3Tolower c"
  by (auto simp: sqlite3Tolower_def split: if_splits)

lemma patternCompare_percent: "patternCompare [37] hay"
  by (induction hay) simp_all

lemma patternCompare_literal:
  assumes "37 \<notin> set s" and "95 \<notin> set s"
  shows "patternCompare (s @ p) hay \<longleftrightarrow>
     length s \<le> length hay \<and>
     map sqlite3Tolower (take (length s) hay) = map sqlite3Tolower s \<and>
     patternCompare p (drop (length s) hay)"
  using assms
proof (induction s arbitrary: hay)
  case Nil
  then show ?case by simp
next
  case (Cons c s)
  show ?case
  proof (cases hay)
    case Nil
    with Cons.prems show ?thesis by simp
  next
    case (Cons c2 cs)
    from Cons.prems have c: "c \<noteq> 37" "c \<noteq> 95" and s: "37 \<notin> set s" "95 \<notin> set s" by auto
    have "patternCompare ((c # s) @ p) (c2 # cs) \<longleftrightarrow>
        (c = c2 \<or> (sqlite3Tolower c = sqlite3Tolower c2 \<and> c < 128 \<and> c2 < 128)) \<and>
        patternCompare (s @ p) cs"
      using c by simp
    also have "\<dots> \<longleftrightarrow> sqlite3Tolower c2 = sqlite3Tolower c \<and> patternCompare (s @ p) cs"
      by (simp only: tolower_eq)
    finally show ?thesis
      unfolding Cons.IH [OF s] Cons by auto
  qed
qed

lemma patternCompare_percent_Cons:
  "patternCompare (37 # p) hay \<longleftrightarrow> (\<exists>k \<le> length hay. patternCompare p (drop k hay))"
proof (induction hay)
  case Nil
  then show ?case by (cases p) simp_all
next
  case (Cons c cs)
  have "(\<exists>k \<le> length (c # cs). patternCompare p (drop k (c # cs))) \<longleftrightarrow>
      patternCompare p (c # cs) \<or> (\<exists>k \<le> length cs. patternCompare p (drop k cs))"
  proof
    assume "\<exists>k \<le> length (c # cs). patternCompare p (drop k (c # cs))"
    then obtain k where k: "k \<le> length (c # cs)" "patternCompare p (drop k (c # cs))" by blast
    show "patternCompare p (c # cs) \<or> (\<exists>k \<le> length cs. patternCompare p (drop k cs))"
    proof (cases k)
      case 0
      with k show ?thesis by simp
    next
      case (Suc j)
      with k have "j \<le> length cs" "patternCompare p (drop j cs)" by simp_all
      then show ?thesis by blast
    qed
  next
    assume "patternCompare p (c # cs) \<or> (\<exists>k \<le> length cs. patternCompare p (drop k cs))"
    then show "\<exists>k \<le> length (c # cs). patternCompare p (drop k (c # cs))"
    proof
      assume "patternCompare p (c # cs)"
      then have "0 \<le> length (c # cs) \<and> patternCompare p (drop 0 (c # cs))" by simp
      then show ?thesis by blast
    next
      assume "\<exists>k \<le> length cs. patternCompare p (drop k cs)"
      then obtain k where "k \<le> length cs" "patternCompare p (drop k cs)" by blast
      then have "Suc k \<le> length (c # cs) \<and> patternCompare p (drop (Suc k) (c # cs))" by simp
      then show ?thesis by blast
    qed
  qed
  with Cons show ?case by simp
qed

lemma patternCompare_contains:
  assumes "37 \<notin> set s" and "95 \<notin> set s"
  shows "patternCompare (37 # s @ [37]) hay \<longleftrightarrow>
     sublist (map sqlite3Tolower s) (map sqlite3Tolower hay)"
proof -
  have "patternCompare (37 # s @ [37]) hay \<longleftrightarrow>
      (\<exists>k \<le> length hay. length s \<le> length (drop k hay) \<and>
         map sqlite3Tolower (take (length s) (drop k hay)) = map sqlite3Tolower s)"
  proof -
    have b: "patternCompare (s @ [37]) u \<longleftrightarrow>
        length s \<le> length u \<and> map sqlite3Tolower (take (length s) u) = map sqlite3Tolower s" for u
      by (simp only: patternCompare_literal [OF assms] patternCompare_percent simp_thms)
    have "patternCompare (37 # s @ [37]) hay \<longleftrightarrow>
        (\<exists>k \<le> length hay. patternCompare (s @ [37]) (drop k hay))"
      by (rule patternCompare_percent_Cons)
    then show ?thesis unfolding b .
  qed
  also have "\<dots> \<longleftrightarrow> sublist (map sqlite3Tolower s) (map sqlite3Tolower hay)"
  proof
    assume "\<exists>k \<le> length hay. length s \<le> length (drop k hay) \<and>
         map sqlite3Tolower (take (length s) (drop k hay)) = map sqlite3Tolower s"
    then obtain k where k: "k \<le> length hay" "length s \<le> length (drop k hay)"
      "map sqlite3Tolower (take (length s) (drop k hay)) = map sqlite3Tolower s" by blast
    have "hay = take k hay @ take (length s) (drop k hay) @ drop (length s) (drop k hay)"
      by (simp only: append_take_drop_id)
    then have "map sqlite3Tolower hay =
        map sqlite3Tolower (take k hay) @ map sqlite3Tolower (take (length s) (drop k hay)) @
        map sqlite3Tolower (drop (length s) (drop k hay))"
      by (metis map_append)
    with k(3) show "sublist (map sqlite3Tolower s) (map sqlite3Tolower hay)"
      unfolding sublist_def by metis
  next
    assume "sublist (map sqlite3Tolower s) (map sqlite3Tolower hay)"
    then obtain ps ss where e: "map sqlite3Tolower hay = ps @ map sqlite3Tolower s @ ss"
      unfolding sublist_def by blast
    then have l: "length hay = length ps + length s + length ss"
      by (metis length_append length_map add.assoc)
    have "drop (length ps) (map sqlite3Tolower hay) = map sqlite3Tolower s @ ss"
      using e by simp
    then have "take (length s) (drop (length ps) (map sqlite3Tolower hay)) = map sqlite3Tolower s"
      by simp
    then have "map sqlite3Tolower (take (length s) (drop (length ps) hay)) = map sqlite3Tolower s"
      by (simp add: take_map drop_map)
    moreover have "length ps \<le> length hay" "length s \<le> length (drop (length ps) hay)"
      using l by simp_all
    ultimately show "\<exists>k \<le> length hay. length s \<le> length (drop k hay) \<and>
         map sqlite3Tolower (take (length s) (drop k hay)) = map sqlite3Tolower s"
      by blast
  qed
  finally show ?thesis .
qed

lemma c_string_no_NUL: "NUL \<notin> set s \<Longrightarrow> c_string s = s"
  by (auto simp: c_string_def)

lemma not_continuation_percent: "\<not> is_continuation CHR ''%''"
  by (simp add: is_continuation_def)

lemma sql_chars_pattern:
  assumes "NUL \<notin> set s"
  shows "sql_chars (''%'' @ s @ ''%'') = 37 # utf8_chars s @ [37]"
proof -
  have "NUL \<notin> set (''%'' @ s @ ''%'')" using assms by (simp add: NUL_def)
  then have "c_string (''%'' @ s @ ''%'') = ''%'' @ s @ ''%''"
    by (rule c_string_no_NUL)
  then have "sql_chars (''%'' @ s @ ''%'') = utf8_chars (''%'' @ s @ ''%'')"
    by (simp only: sql_chars_def)
  also have "\<dots> = 37 # utf8_chars (s @ ''%'')"
    by (simp add: sqlite3Utf8Read_def)
  also have "utf8_chars (s @ ''%'') = utf8_chars s @ utf8_chars ''%''"
    by (rule utf8_chars_append) (rule not_continuation_percent)
  also have "utf8_chars ''%'' = [37]"
    by (simp add: sqlite3Utf8Read_def)
  finally show ?thesis .
qed

lemma utf8_chars_no_wildcard:
  assumes "CHR ''%'' \<notin> set s" and "CHR ''_'' \<notin> set s"
  shows "37 \<notin> set (utf8_chars s)" and "95 \<notin> set (utf8_chars s)"
proof -
  show "37 \<notin> set (utf8_chars s)"
  proof
    assume "37 \<in> set (utf8_chars s)"
    then have "\<exists>b \<in> set s. (of_char b :: nat) = 37" by (rule utf8_chars_ascii) simp
    with assms(1) show False by (auto dest: of_char_percent)
  qed
  show "95 \<notin> set (utf8_chars s)"
  proof
    assume "95 \<in> set (utf8_chars s)"
    then have "\<exists>b \<in> set s. (of_char b :: nat) = 95" by (rule utf8_chars_ascii) simp
    with assms(2) show False by (auto dest: of_char_underscore)
  qed
qed

lemma like_contains:
  assumes "CHR ''%'' \<notin> set s" and "CHR ''_'' \<notin> set s" and "NUL \<notin> set s"
  shows "like (''%'' @ s @ ''%'') hay \<longleftrightarrow> contains_nocase s hay"
  unfolding like_def contains_nocase_def sql_chars_pattern [OF assms(3)]
  by (rule patternCompare_contains) (rule utf8_chars_no_wildcard [OF assms(1,2)])+

lemma contains_nocase_empty: "contains_nocase '''' hay"
  by (simp add: contains_nocase_def)

lemma matching_like:
  "Search q \<noteq> '''' \<Longrightarrow> matching db q =
     filter (\<lambda>s. like (''%'' @ Search q @ ''%'') (Name s) \<or>
                  like (''%'' @ Search q @ ''%'') (Description s)) (services db)"
  by (simp add: matching_def whereClause_of_def)

lemma matching_filter:
  assumes "CHR ''%'' \<notin> set (Search q)" and "CHR ''_'' \<notin> set (Search q)"
    and "NUL \<notin> set (Search q)"
  shows "matching db q = filter (matches_search (Search q)) (services db)"
proof (cases "Search q = ''''")
  case True
  then show ?thesis
    by (simp add: matching_def whereClause_of_def matches_search_def contains_nocase_empty)
next
  case False
  have "(\<lambda>s. like (''%'' @ Search q @ ''%'') (Name s) \<or>
             like (''%'' @ Search q @ ''%'') (Description s)) = matches_search (Search q)"
    unfolding like_contains [OF assms] matches_search_def by (rule refl)
  with False show ?thesis
    by (simp add: matching_def whereClause_of_def)
qed

lemma like_NUL: "like (CHR ''%'' # NUL # s) hay"
  by (simp add: like_def sql_chars_def c_string_def NUL_def sqlite3Utf8Read_def
      patternCompare_percent)

lemma like_percents: "like ''%%%'' hay"
proof -
  have "sql_chars ''%%%'' = [37, 37, 37]"
    by (simp add: sql_chars_def c_string_def NUL_def sqlite3Utf8Read_def)
  moreover have "patternCompare [37, 37, 37] u" for u
    by (induction u) simp_all
  ultimately show ?thesis by (simp only: like_def)
qed

lemma like_underscore: "like ''%_%'' hay \<longleftrightarrow> sql_chars hay \<noteq> []"
proof -
  have p: "sql_chars ''%_%'' = [37, 95, 37]"
    by (simp add: sql_chars_def c_string_def NUL_def sqlite3Utf8Read_def)
  show ?thesis
  proof (cases "sql_chars hay")
    case Nil
    then show ?thesis by (simp add: like_def p)
  next
    case (Cons c cs)
    have "patternCompare [95, 37] (c # cs)" by (simp add: patternCompare_percent)
    then have "patternCompare [37, 95, 37] (c # cs)" by simp
    with Cons show ?thesis by (simp add: like_def p)
  qed
qed

lemma sublist_single: "sublist [x] ys \<longleftrightarrow> x \<in> set ys"
  unfolding sublist_def by (auto simp: in_set_conv_decomp)

lemma contains_nocase_single_byte:
  "(of_char b :: nat) < 192 \<Longrightarrow>
   contains_nocase [b] hay \<longleftrightarrow> sqlite3Tolower (of_char b) \<in> sqlite3Tolower ` set (sql_chars hay)"
  by (simp add: contains_nocase_def sqlite3Utf8Read_def sublist_single)

lemma matching_normalized: "matching db (normalized q) = matching db q"
  by (simp add: matching_def whereClause_of_def normalized_def)

lemma whereClause_of_normalized: "whereClause_of (normalized q) = whereClause_of q"
  by (simp add: whereClause_of_def normalized_def)

section \<open>GetServiceByID, case by case\<close>



lemma GetServiceByID_absent:
  assumes "0 < sint i" and "fault db (SelectServiceByID i) = None"
    and "find (\<lambda>s. Service.ID s = i) (services db) = None"
  shows "GetByID db i = (Inr None, [SelectServiceByID i])"
    and "GetServiceByID db i = (Inl (Err ''service not found''), [SelectServiceByID i])"
  using assms by (simp_all add: GetServiceByID_def GetByID_def select_service_by_id_def)


lemma GetServiceByID_store_failure:
  assumes "0 < sint i" and "fault db (SelectServiceByID i) = Some e" and "e \<noteq> ErrNoRows"
  shows "GetServiceByID db i =
      (Inl (Err (''failed to get service: '' @ Error e)), [SelectServiceByID i])"
  using assms by (simp add: GetServiceByID_def GetByID_def select_service_by_id_def)

section \<open>The sample store, evaluated\<close>

lemma sample_db_no_fault: "\<forall>c. fault sample_db c = None"
  by (simp add: sample_db_def)

lemmas sample_defs = sample_db_def locate_us_def collect_monday_def contact_us_def version_def

lemmas closed_form_defs = page_rows_def normalized_def orderBy_of_def offset_of_def matching_def
  whereClause_of_def limit_offset_def calls_of_def with_versions_def versions_of_def ToUpper_def



lemma sample_Inr:
  "GetServices sample_db q =
     (Inr (projr (fst (GetServices sample_db q))), snd (GetServices sample_db q))"
  by (simp add: GetServices_ok [OF sample_db_no_fault])

lemma sample_names:
  "map (Name \<circ> Service) (Services (projr (fst (GetServices sample_db q)))) =
     map Name (page_rows sample_db (normalized q))"
  by (simp add: GetServices_ok [OF sample_db_no_fault] with_versions_def)

lemma sample_rows:
  "map Service (Services (projr (fst (GetServices sample_db q)))) =
     page_rows sample_db (normalized q)"
  by (simp add: GetServices_ok [OF sample_db_no_fault] map_Service_with_versions)

lemma sample_select:
  "snd (GetServices sample_db q) ! 1 =
     SelectServices (whereClause_of (normalized q)) (fst (orderBy_of (normalized q)))
       (snd (orderBy_of (normalized q))) (ServiceQuery.PageSize (normalized q))
       (offset_of (normalized q))"
  by (simp add: GetServices_ok [OF sample_db_no_fault] calls_of_def)

lemma sample_unvalidated:
  "GetServices sample_db
     \<lparr>Search = '''', SortBy = '''', SortDir = '''', Page = 0, PageSize = 250\<rparr> =
    (Inr \<lparr>Services =
       [\<lparr>Service = collect_monday,
         Versions = [version 4 2 ''1.2.0'' 220, version 3 2 ''1.0.0'' 210]\<rparr>,
        \<lparr>Service = contact_us, Versions = [version 5 3 ''1.0.0'' 310]\<rparr>,
        \<lparr>Service = locate_us,
         Versions = [version 2 1 ''1.1.0'' 120, version 1 1 ''1.0.0'' 110]\<rparr>],
       Total = 3, Page = 1, PageSize = 100, TotalPages = 1\<rparr>,
     [CountServices NoWhere, SelectServices NoWhere s_name ASC 100 0,
      SelectVersionsByServiceID 2, SelectVersionsByServiceID 3, SelectVersionsByServiceID 1])"
  by (simp only: GetServices_ok [OF sample_db_no_fault])
    (simp add: closed_form_defs sample_defs total_pages_div)

section \<open>Totals and page counts\<close>

lemma numbered_db_no_fault: "\<forall>c. fault (numbered_db n) c = None"
  by (simp add: numbered_db_def)

lemma numbered_db_length: "length (services (numbered_db n)) = n"
  by (simp add: numbered_db_def)

lemma matching_all: "Search q = '''' \<Longrightarrow> matching db q = services db"
  by (simp add: matching_def whereClause_of_def)

lemma length_where_rows: "length (where_rows w rows) \<le> length rows"
  by (cases w) simp_all

lemma length_matching: "length (matching db q) \<le> length (services db)"
  by (simp add: matching_def length_where_rows)

lemma sint_of_nat_small: "n < 2 ^ 63 \<Longrightarrow> sint (of_nat n :: int64) = int n"
proof -
  assume "n < 2 ^ 63"
  then have "int n < 2 ^ 63" by (metis of_nat_less_iff of_nat_numeral of_nat_power)
  moreover have "sint (of_nat n :: int64) = sint (word_of_int (int n) :: int64)" by simp
  ultimately show ?thesis
    by (simp only: sint_sbintrunc') (simp add: signed_take_bit_int_eq_self)
qed

lemma GetServices_ok_Inr:
  "\<forall>c. fault db c = None \<Longrightarrow>
     GetServices db q = (Inr (projr (fst (GetServices db q))), snd (GetServices db q))"
  by (simp add: GetServices_ok)

lemma GetServices_ok_fields:
  assumes "\<forall>c. fault db c = None"
  shows "Total (projr (fst (GetServices db q))) = of_nat (length (matching db q))"
    and "ServiceListResponse.PageSize (projr (fst (GetServices db q))) =
           ServiceQuery.PageSize (normalized q)"
    and "ServiceListResponse.Page (projr (fst (GetServices db q))) =
           ServiceQuery.Page (normalized q)"
    and "TotalPages (projr (fst (GetServices db q))) =
           total_pages (of_nat (length (matching db q))) (ServiceQuery.PageSize (normalized q))"
    and "map Service (Services (projr (fst (GetServices db q)))) = page_rows db (normalized q)"
  by (simp_all add: GetServices_ok [OF assms] matching_normalized map_Service_with_versions)

section \<open>Offsets\<close>

lemma length_order_rows: "length (order_rows col dir rows) = length rows"
  by (cases col; cases dir) simp_all

lemma limit_offset_past_end:
  "int (length rows) \<le> sint off \<Longrightarrow> limit_offset l off rows = []"
  by (simp add: limit_offset_def Let_def)

lemma sint_offset:
  fixes p ps :: int64
  assumes "1 \<le> sint p" and "1 \<le> sint ps" and "(sint p - 1) * sint ps < 2 ^ 63"
  shows "sint ((p - 1) * ps) = (sint p - 1) * sint ps"
proof -
  have b: "sint p < 2 ^ 63" using sint_lt [of p] by simp
  have "sint (p - 1) = signed_take_bit 63 (sint p - 1)"
    by (simp add: sint_word_ariths)
  also have "\<dots> = sint p - 1"
    using assms(1) b by (intro signed_take_bit_int_eq_self) simp_all
  finally have m: "sint (p - 1) = sint p - 1" .
  have "0 \<le> (sint p - 1) * sint ps" using assms(1,2) by simp
  then have "- (2 ^ 63) \<le> (sint p - 1) * sint ps" by simp
  with assms(3) have "signed_take_bit 63 ((sint p - 1) * sint ps) = (sint p - 1) * sint ps"
    by (intro signed_take_bit_int_eq_self) simp_all
  moreover have "sint ((p - 1) * ps) = signed_take_bit 63 (sint (p - 1) * sint ps)"
    by (simp add: sint_word_ariths)
  ultimately show ?thesis by (simp add: m)
qed

lemma sample_matching_all: "Search q = '''' \<Longrightarrow> length (matching sample_db q) = 3"
  by (simp add: matching_all sample_defs)

section \<open>Claims\<close>

subsection \<open>C1: pagination is normalized before use\<close>

text \<open>
  C1. For every query, \<open>GetServices\<close> works with page 1 when the given page is not
  positive, with page size 12 when the given page size is not positive and with page size
  100 when it exceeds 100. So the page is at least 1 and the page size lies between 1 and
  100; every \<^verbatim>\<open>LIMIT\<close> and \<^verbatim>\<open>OFFSET\<close> sent to the store is made of these values, whether
  or not the call succeeds, and a successful call echoes them in its response.
\<close>

theorem getServices_normalizes_pagination:
  fixes db :: database and q :: ServiceQuery
  defines "page \<equiv> (if sint (ServiceQuery.Page q) \<le> 0 then 1 else ServiceQuery.Page q)"
    and "pageSize \<equiv> (if sint (ServiceQuery.PageSize q) \<le> 0 then 12
                      else if 100 < sint (ServiceQuery.PageSize q) then 100
                      else ServiceQuery.PageSize q)"
  shows "1 \<le> sint page \<and> 1 \<le> sint pageSize \<and> sint pageSize \<le> 100 \<and>
     (\<forall>w col dir l off. SelectServices w col dir l off \<in> set (snd (GetServices db q)) \<longrightarrow>
        l = pageSize \<and> off = (page - 1) * pageSize) \<and>
     (\<forall>r t. GetServices db q = (Inr r, t) \<longrightarrow>
        ServiceListResponse.Page r = page \<and> ServiceListResponse.PageSize r = pageSize \<and>
        (\<exists>w col dir. t ! 1 = SelectServices w col dir pageSize ((page - 1) * pageSize)))"
proof -
  have p: "page = ServiceQuery.Page (normalized q)"
    and ps: "pageSize = ServiceQuery.PageSize (normalized q)"
    by (simp_all add: page_def pageSize_def normalized_def)
  have b: "1 \<le> sint page \<and> 1 \<le> sint pageSize \<and> sint pageSize \<le> 100"
    unfolding p ps using normalized_Page_bounds normalized_PageSize_bounds by blast
  have c: "\<forall>w col dir l off. SelectServices w col dir l off \<in> set (snd (GetServices db q)) \<longrightarrow>
        l = pageSize \<and> off = (page - 1) * pageSize"
  proof (intro allI impI)
    fix w col dir l off
    assume "SelectServices w col dir l off \<in> set (snd (GetServices db q))"
    from GetServices_calls [OF this] show "l = pageSize \<and> off = (page - 1) * pageSize"
      unfolding p ps by (simp add: offset_of_def)
  qed
  have s: "\<forall>r t. GetServices db q = (Inr r, t) \<longrightarrow>
        ServiceListResponse.Page r = page \<and> ServiceListResponse.PageSize r = pageSize \<and>
        (\<exists>w col dir. t ! 1 = SelectServices w col dir pageSize ((page - 1) * pageSize))"
  proof (intro allI impI)
    fix r t assume g: "GetServices db q = (Inr r, t)"
    from GetServices_Inr [OF g]
    show "ServiceListResponse.Page r = page \<and> ServiceListResponse.PageSize r = pageSize \<and>
        (\<exists>w col dir. t ! 1 = SelectServices w col dir pageSize ((page - 1) * pageSize))"
      unfolding p ps by (simp add: calls_of_def offset_of_def)
  qed
  from b c s show ?thesis by blast
qed

theorem getServices_normalizes_pagination_witness:
  "ServiceListResponse.Page (projr (fst (GetServices sample_db
      \<lparr>Search = '''', SortBy = '''', SortDir = '''', Page = 0, PageSize = 250\<rparr>))) = 1 \<and>
   ServiceListResponse.PageSize (projr (fst (GetServices sample_db
      \<lparr>Search = '''', SortBy = '''', SortDir = '''', Page = 0, PageSize = 250\<rparr>))) = 100 \<and>
   (\<exists>w col dir. snd (GetServices sample_db
      \<lparr>Search = '''', SortBy = '''', SortDir = '''', Page = 0, PageSize = 250\<rparr>) ! 1 =
      SelectServices w col dir 100 0)"
proof -
  let ?q = "\<lparr>Search = '''', SortBy = '''', SortDir = '''', Page = 0, PageSize = 250\<rparr>"
  obtain r t where g: "GetServices sample_db ?q = (Inr r, t)"
    using sample_unvalidated by blast
  from getServices_normalizes_pagination [where db = sample_db and q = ?q]
  have "\<forall>r t. GetServices sample_db ?q = (Inr r, t) \<longrightarrow>
      ServiceListResponse.Page r = 1 \<and> ServiceListResponse.PageSize r = 100 \<and>
      (\<exists>w col dir. t ! 1 = SelectServices w col dir 100 0)"
    by simp
  with g show ?thesis by simp
qed

subsection \<open>C2: the number of pages\<close>

text \<open>
  C2. For every successful \<open>GetServices\<close> the total of the response is the number of
  services matching the filter, whatever the page, and the page count equals the ceiling of
  the total divided by the page size of the response: 0 for the total 0, and 2 for the
  total 8 with page size 5. The page count is computed in \<^verbatim>\<open>float64\<close>, which holds every
  total up to \<open>2 ^ 53\<close> exactly. The store is an SQLite file of at most \<open>2 ^ 32 - 2\<close> pages
  of at most 65536 bytes, which is room for fewer than \<open>2 ^ 48\<close> rows, so the bound on the
  store holds of every store the program opens.
\<close>

theorem total_pages_is_ceiling:
  assumes "GetServices db q = (Inr r, t)" and "length (services db) \<le> 2 ^ 53"
  shows "sint (Total r) = int (length (matching db q)) \<and>
     sint (TotalPages r) =
       \<lceil>(of_int (sint (Total r)) :: rat) / of_int (sint (ServiceListResponse.PageSize r))\<rceil>"
proof -
  define n where "n = length (matching db q)"
  from GetServices_Inr(1) [OF assms(1)]
  have T: "Total r = of_nat n"
    and P: "ServiceListResponse.PageSize r = ServiceQuery.PageSize (normalized q)"
    and TP: "TotalPages r = total_pages (of_nat n) (ServiceQuery.PageSize (normalized q))"
    by (simp_all add: matching_normalized n_def)
  have n53: "n \<le> 2 ^ 53" using length_matching [of db q] assms(2) by (simp add: n_def)
  then have "n < 2 ^ 63" by (rule order_le_less_trans) simp
  then have s: "sint (of_nat n :: int64) = int n" by (rule sint_of_nat_small)
  have "int n \<le> 2 ^ 53" using n53 by (metis of_nat_le_iff of_nat_numeral of_nat_power)
  then have b: "0 \<le> sint (of_nat n :: int64)" "sint (of_nat n :: int64) \<le> 2 ^ 53"
    unfolding s by simp_all
  from total_pages_exact [OF b] normalized_PageSize_bounds [of q]
  have "sint (total_pages (of_nat n) (ServiceQuery.PageSize (normalized q))) =
      \<lceil>(of_int (sint (of_nat n :: int64)) :: rat) /
        of_int (sint (ServiceQuery.PageSize (normalized q)))\<rceil>"
    by blast
  note h = this
  show ?thesis
    unfolding T P TP
  proof (intro conjI)
    show "sint (of_nat n :: int64) = int (length (matching db q))"
      using s by (simp only: n_def)
    show "sint (total_pages (of_nat n) (ServiceQuery.PageSize (normalized q))) =
      \<lceil>(of_int (sint (of_nat n :: int64)) :: rat) /
        of_int (sint (ServiceQuery.PageSize (normalized q)))\<rceil>"
      by (rule h)
  qed
qed

theorem total_pages_is_ceiling_witness:
  "sint (Total (projr (fst (GetServices (numbered_db 8)
      \<lparr>Search = '''', SortBy = '''', SortDir = '''', Page = 1, PageSize = 5\<rparr>)))) = 8 \<and>
   sint (TotalPages (projr (fst (GetServices (numbered_db 8)
      \<lparr>Search = '''', SortBy = '''', SortDir = '''', Page = 1, PageSize = 5\<rparr>)))) = 2 \<and>
   sint (Total (projr (fst (GetServices (numbered_db 0)
      \<lparr>Search = '''', SortBy = '''', SortDir = '''', Page = 1, PageSize = 5\<rparr>)))) = 0 \<and>
   sint (TotalPages (projr (fst (GetServices (numbered_db 0)
      \<lparr>Search = '''', SortBy = '''', SortDir = '''', Page = 1, PageSize = 5\<rparr>)))) = 0"
proof -
  let ?q = "\<lparr>Search = '''', SortBy = '''', SortDir = '''', Page = 1, PageSize = 5\<rparr>"
  have c: "\<lceil>(8::rat) / 5\<rceil> = 2" by (rule ceiling_unique) simp_all
  have l: "length (services (numbered_db 8)) \<le> 2 ^ 53" "length (services (numbered_db 0)) \<le> 2 ^ 53"
    by (simp_all add: numbered_db_length)
  have p: "ServiceListResponse.PageSize (projr (fst (GetServices (numbered_db n) ?q))) = 5" for n
    by (simp add: GetServices_ok_fields [OF numbered_db_no_fault] normalized_def)
  have m: "length (matching (numbered_db n) ?q) = n" for n
    by (simp add: matching_all numbered_db_length)
  note th8 = total_pages_is_ceiling [OF GetServices_ok_Inr [OF numbered_db_no_fault] l(1), of ?q]
  note th0 = total_pages_is_ceiling [OF GetServices_ok_Inr [OF numbered_db_no_fault] l(2), of ?q]
  have t8: "sint (Total (projr (fst (GetServices (numbered_db 8) ?q)))) = 8"
    using th8 [THEN conjunct1] by (simp only: m of_nat_numeral)
  have t0: "sint (Total (projr (fst (GetServices (numbered_db 0) ?q)))) = 0"
    using th0 [THEN conjunct1] by (simp only: m of_nat_0)
  have c8: "\<lceil>(of_int 8 :: rat) / of_int (sint (5 :: int64))\<rceil> = 2"
    by (rule ceiling_unique) simp_all
  have c0: "\<lceil>(of_int 0 :: rat) / of_int (sint (5 :: int64))\<rceil> = 0"
    by simp
  have p8: "sint (TotalPages (projr (fst (GetServices (numbered_db 8) ?q)))) = 2"
    using th8 [THEN conjunct2] unfolding t8 p c8 .
  have p0: "sint (TotalPages (projr (fst (GetServices (numbered_db 0) ?q)))) = 0"
    using th0 [THEN conjunct2] unfolding t0 p c0 .
  from t8 p8 t0 p0 show ?thesis by blast
qed

subsection \<open>C3: the sort direction\<close>

text \<open>
  C3 as stated fails: with the sort direction \<^verbatim>\<open>DESC\<close>, which is \<^verbatim>\<open>desc\<close> up to letter case,
  and the sort field \<^verbatim>\<open>name\<close>, the store is asked for ascending order and the names come
  back ascending, not descending.
\<close>

theorem upper_case_DESC_sorts_ascending_counterexample:
  "map (Name \<circ> Service) (Services (projr (fst (GetServices sample_db
      \<lparr>Search = '''', SortBy = ''name'', SortDir = ''DESC'', Page = 1, PageSize = 10\<rparr>)))) =
     [''Collect Monday'', ''Contact Us'', ''Locate Us''] \<and>
   snd (GetServices sample_db
      \<lparr>Search = '''', SortBy = ''name'', SortDir = ''DESC'', Page = 1, PageSize = 10\<rparr>) ! 1 =
     SelectServices NoWhere s_name ASC 10 0 \<and>
   \<not> descending_by s_name (map Service (Services (projr (fst (GetServices sample_db
      \<lparr>Search = '''', SortBy = ''name'', SortDir = ''DESC'', Page = 1, PageSize = 10\<rparr>)))))"
  by (simp only: sample_names sample_rows sample_select)
    (simp add: closed_form_defs sample_defs)

text \<open>
  C3 (amended). The sort direction is read as it is written, in lower case: a successful
  \<open>GetServices\<close> asks the store for descending order, and returns the services in
  descending order, when the direction is exactly \<^verbatim>\<open>desc\<close> and the sort field is one of
  \<^verbatim>\<open>name\<close>, \<^verbatim>\<open>created_at\<close> and \<^verbatim>\<open>updated_at\<close>; for every other direction, \<^verbatim>\<open>DESC\<close> and
  \<^verbatim>\<open>Desc\<close> among them, it asks for ascending order and returns the services ascending.
\<close>

theorem sort_direction_is_case_sensitive:
  assumes "GetServices db q = (Inr r, t)"
  shows "(SortDir q = ''desc'' \<and>
          (SortBy q = ''name'' \<or> SortBy q = ''created_at'' \<or> SortBy q = ''updated_at'') \<longrightarrow>
            (\<exists>w col l off. t ! 1 = SelectServices w col DESC l off \<and>
               descending_by col (map Service (Services r)))) \<and>
         (SortDir q \<noteq> ''desc'' \<longrightarrow>
            (\<exists>w col l off. t ! 1 = SelectServices w col ASC l off \<and>
               ascending_by col (map Service (Services r))))"
proof (intro conjI impI)
  assume a: "SortDir q = ''desc'' \<and>
      (SortBy q = ''name'' \<or> SortBy q = ''created_at'' \<or> SortBy q = ''updated_at'')"
  then have "snd (orderBy_of (normalized q)) = DESC"
    by (simp add: orderBy_of_normalized)
  with GetServices_order [OF assms]
  show "\<exists>w col l off. t ! 1 = SelectServices w col DESC l off \<and>
      descending_by col (map Service (Services r))"
    by auto
next
  assume "SortDir q \<noteq> ''desc''"
  then have "snd (orderBy_of (normalized q)) = ASC"
    by (simp add: orderBy_of_normalized)
  with GetServices_order [OF assms]
  show "\<exists>w col l off. t ! 1 = SelectServices w col ASC l off \<and>
      ascending_by col (map Service (Services r))"
    by auto
qed

theorem sort_direction_is_case_sensitive_witness:
  "(\<exists>w col l off. snd (GetServices sample_db
        \<lparr>Search = '''', SortBy = ''name'', SortDir = ''desc'', Page = 1, PageSize = 10\<rparr>) ! 1 =
          SelectServices w col DESC l off \<and>
      descending_by col (map Service (Services (projr (fst (GetServices sample_db
        \<lparr>Search = '''', SortBy = ''name'', SortDir = ''desc'', Page = 1, PageSize = 10\<rparr>)))))) \<and>
   (\<exists>w col l off. snd (GetServices sample_db
        \<lparr>Search = '''', SortBy = ''name'', SortDir = ''Desc'', Page = 1, PageSize = 10\<rparr>) ! 1 =
          SelectServices w col ASC l off \<and>
      ascending_by col (map Service (Services (projr (fst (GetServices sample_db
        \<lparr>Search = '''', SortBy = ''name'', SortDir = ''Desc'', Page = 1, PageSize = 10\<rparr>))))))"
  using
    sort_direction_is_case_sensitive [OF sample_Inr
      [of "\<lparr>Search = '''', SortBy = ''name'', SortDir = ''desc'', Page = 1, PageSize = 10\<rparr>"]]
    sort_direction_is_case_sensitive [OF sample_Inr
      [of "\<lparr>Search = '''', SortBy = ''name'', SortDir = ''Desc'', Page = 1, PageSize = 10\<rparr>"]]
  by simp

subsection \<open>C4: the sort field\<close>

text \<open>
  C4 as stated fails: with a sort field outside the fixed set and the direction \<^verbatim>\<open>desc\<close>,
  the fallback is \<^verbatim>\<open>name\<close> ascending; the direction is not honoured.
\<close>

theorem unknown_sort_field_ignores_direction_counterexample:
  "map (Name \<circ> Service) (Services (projr (fst (GetServices sample_db
      \<lparr>Search = '''', SortBy = ''rating'', SortDir = ''desc'', Page = 1, PageSize = 10\<rparr>)))) =
     [''Collect Monday'', ''Contact Us'', ''Locate Us''] \<and>
   snd (GetServices sample_db
      \<lparr>Search = '''', SortBy = ''rating'', SortDir = ''desc'', Page = 1, PageSize = 10\<rparr>) ! 1 =
     SelectServices NoWhere s_name ASC 10 0 \<and>
   \<not> descending_by s_name (map Service (Services (projr (fst (GetServices sample_db
      \<lparr>Search = '''', SortBy = ''rating'', SortDir = ''desc'', Page = 1, PageSize = 10\<rparr>)))))"
  by (simp only: sample_names sample_rows sample_select)
    (simp add: closed_form_defs sample_defs)

text \<open>
  C4 (amended). The sort field is matched against \<^verbatim>\<open>name\<close>, \<^verbatim>\<open>created_at\<close> and
  \<^verbatim>\<open>updated_at\<close>: for each of them a successful \<open>GetServices\<close> asks the store to order by
  that column, descending when the direction is \<^verbatim>\<open>desc\<close> and ascending otherwise, and
  returns the services in that order. For every other sort field, the empty one included,
  it orders by name ascending, whatever the direction.
\<close>

theorem sort_field_fallback_is_name_ascending:
  assumes "GetServices db q = (Inr r, t)"
  defines "dir \<equiv> (if SortDir q = ''desc'' then DESC else ASC)"
  shows "(SortBy q = ''name'' \<longrightarrow>
            (\<exists>w l off. t ! 1 = SelectServices w s_name dir l off) \<and>
            ordered_by s_name dir (map Service (Services r))) \<and>
         (SortBy q = ''created_at'' \<longrightarrow>
            (\<exists>w l off. t ! 1 = SelectServices w s_created_at dir l off) \<and>
            ordered_by s_created_at dir (map Service (Services r))) \<and>
         (SortBy q = ''updated_at'' \<longrightarrow>
            (\<exists>w l off. t ! 1 = SelectServices w s_updated_at dir l off) \<and>
            ordered_by s_updated_at dir (map Service (Services r))) \<and>
         (SortBy q \<noteq> ''name'' \<and> SortBy q \<noteq> ''created_at'' \<and> SortBy q \<noteq> ''updated_at'' \<longrightarrow>
            (\<exists>w l off. t ! 1 = SelectServices w s_name ASC l off) \<and>
            ordered_by s_name ASC (map Service (Services r)))"
  using GetServices_order [OF assms(1)] unfolding dir_def
  by (auto simp: orderBy_of_normalized)

theorem sort_field_fallback_is_name_ascending_witness:
  "(\<exists>w l off. snd (GetServices sample_db
        \<lparr>Search = '''', SortBy = ''created_at'', SortDir = ''desc'', Page = 1, PageSize = 10\<rparr>) ! 1 =
          SelectServices w s_created_at DESC l off) \<and>
   ordered_by s_created_at DESC (map Service (Services (projr (fst (GetServices sample_db
        \<lparr>Search = '''', SortBy = ''created_at'', SortDir = ''desc'', Page = 1, PageSize = 10\<rparr>))))) \<and>
   (\<exists>w l off. snd (GetServices sample_db
        \<lparr>Search = '''', SortBy = '''', SortDir = ''desc'', Page = 1, PageSize = 10\<rparr>) ! 1 =
          SelectServices w s_name ASC l off) \<and>
   ordered_by s_name ASC (map Service (Services (projr (fst (GetServices sample_db
        \<lparr>Search = '''', SortBy = '''', SortDir = ''desc'', Page = 1, PageSize = 10\<rparr>)))))"
  using
    sort_field_fallback_is_name_ascending [OF sample_Inr
      [of "\<lparr>Search = '''', SortBy = ''created_at'', SortDir = ''desc'', Page = 1, PageSize = 10\<rparr>"]]
    sort_field_fallback_is_name_ascending [OF sample_Inr
      [of "\<lparr>Search = '''', SortBy = '''', SortDir = ''desc'', Page = 1, PageSize = 10\<rparr>"]]
  by simp

subsection \<open>C5: how the get-by-id handler maps errors to responses\<close>

text \<open>
  C5 as stated fails: the id 0 reaches the service, which answers with the
  invalid-id error, and the handler responds with status 500, not with a not-found response.
\<close>

theorem handler_maps_invalid_id_to_server_error_counterexample:
  "fst (GetServiceByID sample_db 0) = Inl (Err ''invalid service ID: 0'') \<and>
   Handler_GetServiceByID sample_db [''id'' \<mapsto> ''0''] =
     (http_Error ''Internal server error'' 500, [])"
  by (simp add: Handler_GetServiceByID_def Atoi_def is_digit_def parse_digits_def
      digit_val_def GetServiceByID_def fmt_d_def digit_char_def)

text \<open>
  C5 (amended). In the get-by-id handler, once the path variable parses as an integer: the
  error \<^verbatim>\<open>service not found\<close> is mapped to the response \<^verbatim>\<open>Service not found\<close> with status
  404; the invalid-id error of a non-positive id, like every other error of the service, is
  mapped to \<^verbatim>\<open>Internal server error\<close> with status 500.
\<close>

theorem handler_error_mapping:
  assumes "vars ''id'' = Some idStr" and "Atoi idStr = Some i"
  shows "(\<forall>t. GetServiceByID db i = (Inl (Err ''service not found''), t) \<longrightarrow>
            Handler_GetServiceByID db vars = (http_Error ''Service not found'' 404, t)) \<and>
         (sint i \<le> 0 \<longrightarrow>
            Handler_GetServiceByID db vars = (http_Error ''Internal server error'' 500, [])) \<and>
         (\<forall>err t. GetServiceByID db i = (Inl err, t) \<and> Error err \<noteq> ''service not found'' \<longrightarrow>
            Handler_GetServiceByID db vars = (http_Error ''Internal server error'' 500, t))"
  using assms
  by (auto simp: Handler_GetServiceByID_def GetServiceByID_def)

theorem handler_error_mapping_witness:
  "Handler_GetServiceByID sample_db [''id'' \<mapsto> ''999''] =
     (http_Error ''Service not found'' 404, [SelectServiceByID 999]) \<and>
   Handler_GetServiceByID sample_db [''id'' \<mapsto> ''-1''] =
     (http_Error ''Internal server error'' 500, []) \<and>
   Handler_GetServiceByID locked_db [''id'' \<mapsto> ''999''] =
     (http_Error ''Internal server error'' 500, [SelectServiceByID 999])"
proof -
  have a: "Atoi ''999'' = Some 999" "Atoi ''-1'' = Some (- 1)"
    by (simp_all add: Atoi_def is_digit_def parse_digits_def digit_val_def)
  have p: "(0::int) < sint (999 :: int64)" by simp
  have n: "find (\<lambda>s. Service.ID s = 999) (services sample_db) = None"
    by (simp add: sample_defs)
  have nf: "fault sample_db (SelectServiceByID 999) = None" by (simp add: sample_db_def)
  have l: "fault locked_db (SelectServiceByID 999) = Some (Err ''database is locked'')"
    by (simp add: locked_db_def)
  note g1 = GetServiceByID_absent(2) [OF p nf n]
  have g3: "GetServiceByID locked_db 999 =
     (Inl (Err ''failed to get service: database is locked''), [SelectServiceByID 999])"
    using GetServiceByID_store_failure [OF p l] by simp
  have "Handler_GetServiceByID sample_db [''id'' \<mapsto> ''999''] =
     (http_Error ''Service not found'' 404, [SelectServiceByID 999])"
    using handler_error_mapping [of "[''id'' \<mapsto> ''999'']" "''999''" 999 sample_db] a g1
    by simp
  moreover have "Handler_GetServiceByID sample_db [''id'' \<mapsto> ''-1''] =
     (http_Error ''Internal server error'' 500, [])"
    using handler_error_mapping [of "[''id'' \<mapsto> ''-1'']" "''-1''" "- 1" sample_db] a
    by simp
  moreover have "Handler_GetServiceByID locked_db [''id'' \<mapsto> ''999''] =
     (http_Error ''Internal server error'' 500, [SelectServiceByID 999])"
    using handler_error_mapping [of "[''id'' \<mapsto> ''999'']" "''999''" 999 locked_db] a g3
    by simp
  ultimately show ?thesis by blast
qed

subsection \<open>C6: a non-positive id is refused without a store call\<close>

text \<open>
  C6. For every id that is zero or negative, \<open>GetServiceByID\<close> fails with the error
  \<^verbatim>\<open>invalid service ID: <id>\<close> and issues no statement to the store: the list of store
  calls is empty, whatever the store holds and whether or not it would have failed.
\<close>

theorem getServiceByID_invalid_id:
  "sint i \<le> 0 \<Longrightarrow>
     GetServiceByID db i = (Inl (Err (''invalid service ID: '' @ fmt_d (sint i))), [])"
  by (simp add: GetServiceByID_def)

theorem getServiceByID_invalid_id_witness:
  "GetServiceByID sample_db 0 = (Inl (Err ''invalid service ID: 0''), []) \<and>
   GetServiceByID sample_db (- 1) = (Inl (Err ''invalid service ID: -1''), [])"
  using getServiceByID_invalid_id [of 0 sample_db] getServiceByID_invalid_id [of "- 1" sample_db]
  by (simp add: fmt_d_def digit_char_def)

subsection \<open>C7: absence is not an error of the store, and becomes the not-found error\<close>



subsection \<open>C8: the search filter\<close>

text \<open>
  C8 as stated fails: the search string is placed between two \<open>%\<close> and used as a pattern
  of \<^verbatim>\<open>LIKE\<close>. The search string \<open>_\<close> matches every service with a non-empty name, the
  search string \<open>%\<close> matches every service, and the search string made of one NUL byte
  ends the pattern after its first \<open>%\<close> and matches every service, although no name and no
  description of the sample store contains an underscore, a percent sign or a NUL byte.
\<close>

theorem search_is_a_like_pattern_counterexample:
  "Total (projr (fst (GetServices sample_db
      \<lparr>Search = ''_'', SortBy = '''', SortDir = '''', Page = 1, PageSize = 10\<rparr>))) = 3 \<and>
   filter (matches_search ''_'') (services sample_db) = [] \<and>
   Total (projr (fst (GetServices sample_db
      \<lparr>Search = ''%'', SortBy = '''', SortDir = '''', Page = 1, PageSize = 10\<rparr>))) = 3 \<and>
   filter (matches_search ''%'') (services sample_db) = [] \<and>
   Total (projr (fst (GetServices sample_db
      \<lparr>Search = [NUL], SortBy = '''', SortDir = '''', Page = 1, PageSize = 10\<rparr>))) = 3 \<and>
   filter (matches_search [NUL]) (services sample_db) = []"
proof -
  have t: "Total (projr (fst (GetServices sample_db
      \<lparr>Search = s, SortBy = '''', SortDir = '''', Page = 1, PageSize = 10\<rparr>))) =
      of_nat (length (matching sample_db
        \<lparr>Search = s, SortBy = '''', SortDir = '''', Page = 1, PageSize = 10\<rparr>))" for s
    by (simp add: GetServices_ok [OF sample_db_no_fault] matching_normalized)
  have u: "matching sample_db
      \<lparr>Search = ''_'', SortBy = '''', SortDir = '''', Page = 1, PageSize = 10\<rparr> =
      services sample_db"
    by (simp add: matching_like like_underscore sql_chars_def c_string_def NUL_def
        sqlite3Utf8Read_def sample_defs)
  have p: "matching sample_db
      \<lparr>Search = ''%'', SortBy = '''', SortDir = '''', Page = 1, PageSize = 10\<rparr> =
      services sample_db"
    by (simp add: matching_like like_percents)
  have n: "matching sample_db
      \<lparr>Search = [NUL], SortBy = '''', SortDir = '''', Page = 1, PageSize = 10\<rparr> =
      services sample_db"
    by (simp add: matching_like like_NUL)
  have l: "length (services sample_db) = 3" by (simp add: sample_defs)
  have cu: "filter (matches_search ''_'') (services sample_db) = []"
    by (simp add: matches_search_def contains_nocase_single_byte sql_chars_def c_string_def
        NUL_def sqlite3Utf8Read_def sqlite3Tolower_def sample_defs)
  have cp: "filter (matches_search ''%'') (services sample_db) = []"
    by (simp add: matches_search_def contains_nocase_single_byte sql_chars_def c_string_def
        NUL_def sqlite3Utf8Read_def sqlite3Tolower_def sample_defs)
  have cn: "filter (matches_search [NUL]) (services sample_db) = []"
    by (simp add: matches_search_def contains_nocase_single_byte sql_chars_def c_string_def
        NUL_def sqlite3Utf8Read_def sqlite3Tolower_def sample_defs)
  show ?thesis
    unfolding t u p n l cu cp cn by simp
qed

text \<open>
  C8 (amended). For every search string the count and the page of a successful
  \<open>GetServices\<close> are taken from the same filtered rows: the total is their number, the
  page is a slice of them in the requested order, and both statements carry the same
  \<^verbatim>\<open>WHERE\<close> clause, the one that selects these rows. The empty search string keeps all
  services. Every other search string, with or without wildcards, is used as the pattern
  \<open>%search%\<close> of \<^verbatim>\<open>LIKE\<close> on the name and on the description, and a service is kept when one
  of the two matches. For every search string without the wildcards \<open>%\<close> and \<open>_\<close> and
  without a NUL byte these are exactly the services whose name or description contains
  the search string: the characters of the search string are a contiguous part of the
  UTF-8 characters before the first NUL byte of the text, upper and lower case ASCII
  letters being equal.
\<close>

theorem search_filters_count_and_page:
  assumes "GetServices db q = (Inr r, t)"
  shows "Total r = of_nat (length (matching db q)) \<and>
     (\<exists>col dir l off. map Service (Services r) =
        limit_offset l off (order_rows col dir (matching db q))) \<and>
     (\<exists>w col dir l off. t ! 0 = CountServices w \<and> t ! 1 = SelectServices w col dir l off \<and>
        matching db q = where_rows w (services db)) \<and>
     (Search q = '''' \<longrightarrow> matching db q = services db) \<and>
     (Search q \<noteq> '''' \<longrightarrow> matching db q =
        filter (\<lambda>s. like (''%'' @ Search q @ ''%'') (Name s) \<or>
                     like (''%'' @ Search q @ ''%'') (Description s)) (services db)) \<and>
     (CHR ''%'' \<notin> set (Search q) \<and> CHR ''_'' \<notin> set (Search q) \<and> NUL \<notin> set (Search q) \<longrightarrow>
        matching db q = filter (matches_search (Search q)) (services db))"
proof (intro conjI impI)
  from GetServices_Inr [OF assms]
  have T: "Total r = of_nat (length (matching db q))"
    and P: "map Service (Services r) = page_rows db (normalized q)"
    and C: "t = calls_of db (normalized q)"
    by (simp_all add: matching_normalized map_Service_with_versions)
  show "Total r = of_nat (length (matching db q))" by (rule T)
  show "\<exists>col dir l off. map Service (Services r) =
      limit_offset l off (order_rows col dir (matching db q))"
    unfolding P page_rows_def matching_normalized by blast
  show "\<exists>w col dir l off. t ! 0 = CountServices w \<and> t ! 1 = SelectServices w col dir l off \<and>
      matching db q = where_rows w (services db)"
    unfolding C calls_of_def by (auto simp: matching_def whereClause_of_normalized)
  show "matching db q = services db" if "Search q = ''''"
    using that by (rule matching_all)
  show "matching db q =
      filter (\<lambda>s. like (''%'' @ Search q @ ''%'') (Name s) \<or>
                   like (''%'' @ Search q @ ''%'') (Description s)) (services db)"
    if "Search q \<noteq> ''''"
    using that by (rule matching_like)
  show "matching db q = filter (matches_search (Search q)) (services db)"
    if "CHR ''%'' \<notin> set (Search q) \<and> CHR ''_'' \<notin> set (Search q) \<and> NUL \<notin> set (Search q)"
    using that by (simp add: matching_filter)
qed

theorem search_filters_count_and_page_witness:
  "Total (projr (fst (GetServices sample_db
      \<lparr>Search = ''contact'', SortBy = '''', SortDir = '''', Page = 1, PageSize = 10\<rparr>))) = 1 \<and>
   filter (matches_search ''contact'') (services sample_db) = [contact_us] \<and>
   (\<exists>col dir l off. map Service (Services (projr (fst (GetServices sample_db
      \<lparr>Search = ''contact'', SortBy = '''', SortDir = '''', Page = 1, PageSize = 10\<rparr>)))) =
      limit_offset l off (order_rows col dir [contact_us])) \<and>
   Total (projr (fst (GetServices sample_db
      \<lparr>Search = '''', SortBy = '''', SortDir = '''', Page = 1, PageSize = 10\<rparr>))) = 3"
proof -
  let ?q = "\<lparr>Search = ''contact'', SortBy = '''', SortDir = '''', Page = 1, PageSize = 10\<rparr>"
  let ?e = "\<lparr>Search = '''', SortBy = '''', SortDir = '''', Page = 1, PageSize = 10\<rparr>"
  have f: "filter (matches_search ''contact'') (services sample_db) = [contact_us]"
    by (simp add: matches_search_def contains_nocase_def sublist_Cons_right sql_chars_def
        c_string_def NUL_def sqlite3Utf8Read_def sqlite3Tolower_def sample_defs)
  have h: "CHR ''%'' \<notin> set (Search ?q) \<and> CHR ''_'' \<notin> set (Search ?q) \<and> NUL \<notin> set (Search ?q)"
    by (simp add: NUL_def)
  note c = search_filters_count_and_page [OF sample_Inr [of ?q]]
  note e = search_filters_count_and_page [OF sample_Inr [of ?e]]
  from c h have m: "matching sample_db ?q = filter (matches_search (Search ?q)) (services sample_db)"
    by blast
  have m': "matching sample_db ?q = [contact_us]"
    unfolding m using f by simp
  from e have "matching sample_db ?e = services sample_db" by simp
  then have m0: "length (matching sample_db ?e) = 3" by (simp add: sample_defs)
  from c [THEN conjunct1] have "Total (projr (fst (GetServices sample_db ?q))) = 1"
    unfolding m' by simp
  moreover from c [THEN conjunct2, THEN conjunct1]
  have "\<exists>col dir l off. map Service (Services (projr (fst (GetServices sample_db ?q)))) =
      limit_offset l off (order_rows col dir [contact_us])"
    unfolding m' .
  moreover from e [THEN conjunct1] have "Total (projr (fst (GetServices sample_db ?e))) = 3"
    unfolding m0 by simp
  ultimately show ?thesis using f by blast
qed

subsection \<open>C9: the versions of a returned service\<close>



subsection \<open>C10: a page past the last one\<close>

text \<open>
  C10 as stated fails: the offset is the product \<open>(page - 1) * pageSize\<close> of 64-bit
  integers and wraps around. For page 4611686018427387905 and page size 12 the product is
  far beyond the total 3, the offset sent to the store is 0, and the first page comes back
  with all three services.
\<close>

theorem huge_page_wraps_to_first_page_counterexample:
  "(3::int) \<le> (sint (4611686018427387905 :: int64) - 1) * sint (12 :: int64) \<and>
   GetServices sample_db
     \<lparr>Search = '''', SortBy = '''', SortDir = '''', Page = 4611686018427387905, PageSize = 12\<rparr> =
    (Inr \<lparr>Services =
       [\<lparr>Service = collect_monday,
         Versions = [version 4 2 ''1.2.0'' 220, version 3 2 ''1.0.0'' 210]\<rparr>,
        \<lparr>Service = contact_us, Versions = [version 5 3 ''1.0.0'' 310]\<rparr>,
        \<lparr>Service = locate_us,
         Versions = [version 2 1 ''1.1.0'' 120, version 1 1 ''1.0.0'' 110]\<rparr>],
       Total = 3, Page = 4611686018427387905, PageSize = 12, TotalPages = 1\<rparr>,
     [CountServices NoWhere, SelectServices NoWhere s_name ASC 12 0,
      SelectVersionsByServiceID 2, SelectVersionsByServiceID 3, SelectVersionsByServiceID 1])"
proof -
  have "(3::int) \<le> (sint (4611686018427387905 :: int64) - 1) * sint (12 :: int64)" by simp
  moreover have "GetServices sample_db
     \<lparr>Search = '''', SortBy = '''', SortDir = '''', Page = 4611686018427387905, PageSize = 12\<rparr> =
    (Inr \<lparr>Services =
       [\<lparr>Service = collect_monday,
         Versions = [version 4 2 ''1.2.0'' 220, version 3 2 ''1.0.0'' 210]\<rparr>,
        \<lparr>Service = contact_us, Versions = [version 5 3 ''1.0.0'' 310]\<rparr>,
        \<lparr>Service = locate_us,
         Versions = [version 2 1 ''1.1.0'' 120, version 1 1 ''1.0.0'' 110]\<rparr>],
       Total = 3, Page = 4611686018427387905, PageSize = 12, TotalPages = 1\<rparr>,
     [CountServices NoWhere, SelectServices NoWhere s_name ASC 12 0,
      SelectVersionsByServiceID 2, SelectVersionsByServiceID 3, SelectVersionsByServiceID 1])"
    by (simp only: GetServices_ok [OF sample_db_no_fault])
      (simp add: closed_form_defs sample_defs total_pages_div)
  ultimately show ?thesis by blast
qed

text \<open>
  C10 (amended). For every query whose validated page lies past the last page of matching
  services, \<open>total \<le> (page - 1) * pageSize\<close>, with an offset \<open>(page - 1) * pageSize\<close> that
  fits a signed 64-bit integer, and a store that answers: \<open>GetServices\<close> succeeds with no
  items, the true total, the validated page and page size as they are (the page is not
  clamped) and the page count computed as for any other page; it issues the count and the
  page statement and nothing else.
\<close>

theorem page_past_the_end_is_empty:
  fixes db :: database and q :: ServiceQuery
  defines "page \<equiv> (if sint (ServiceQuery.Page q) \<le> 0 then 1 else ServiceQuery.Page q)"
    and "pageSize \<equiv> (if sint (ServiceQuery.PageSize q) \<le> 0 then 12
                      else if 100 < sint (ServiceQuery.PageSize q) then 100
                      else ServiceQuery.PageSize q)"
  assumes "\<forall>c. fault db c = None"
    and "(sint page - 1) * sint pageSize < 2 ^ 63"
    and "int (length (matching db q)) \<le> (sint page - 1) * sint pageSize"
  shows "(\<exists>w col dir. GetServices db q =
       (Inr \<lparr>Services = [], Total = of_nat (length (matching db q)), Page = page,
              PageSize = pageSize,
              TotalPages = total_pages (of_nat (length (matching db q))) pageSize\<rparr>,
        [CountServices w, SelectServices w col dir pageSize ((page - 1) * pageSize)])) \<and>
     sint (of_nat (length (matching db q)) :: int64) = int (length (matching db q))"
proof -
  have p: "page = ServiceQuery.Page (normalized q)"
    and ps: "pageSize = ServiceQuery.PageSize (normalized q)"
    by (simp_all add: page_def pageSize_def normalized_def)
  have b: "1 \<le> sint page" "1 \<le> sint pageSize"
    unfolding p ps using normalized_Page_bounds normalized_PageSize_bounds by blast+
  have o: "sint (offset_of (normalized q)) = (sint page - 1) * sint pageSize"
    unfolding offset_of_def p [symmetric] ps [symmetric] by (rule sint_offset [OF b assms(4)])
  have "int (length (order_rows (fst (orderBy_of (normalized q)))
      (snd (orderBy_of (normalized q))) (matching db (normalized q)))) \<le>
      sint (offset_of (normalized q))"
    unfolding o length_order_rows matching_normalized by (rule assms(5))
  then have e: "page_rows db (normalized q) = []"
    unfolding page_rows_def by (rule limit_offset_past_end)
  have "int (length (matching db q)) < 2 ^ 63" using assms(4,5) by simp
  then have "length (matching db q) < 2 ^ 63"
    by (metis of_nat_less_iff of_nat_numeral of_nat_power)
  then have s: "sint (of_nat (length (matching db q)) :: int64) = int (length (matching db q))"
    by (rule sint_of_nat_small)
  have "GetServices db q =
       (Inr \<lparr>Services = [], Total = of_nat (length (matching db q)), Page = page,
              PageSize = pageSize,
              TotalPages = total_pages (of_nat (length (matching db q))) pageSize\<rparr>,
        [CountServices (whereClause_of (normalized q)),
         SelectServices (whereClause_of (normalized q)) (fst (orderBy_of (normalized q)))
           (snd (orderBy_of (normalized q))) pageSize ((page - 1) * pageSize)])"
    unfolding GetServices_ok [OF assms(3)] calls_of_def e matching_normalized offset_of_def
      p [symmetric] ps [symmetric]
    by simp
  with s show ?thesis by blast
qed

theorem page_past_the_end_is_empty_witness:
  "\<exists>w col dir. GetServices sample_db
      \<lparr>Search = '''', SortBy = '''', SortDir = '''', Page = 2, PageSize = 10\<rparr> =
     (Inr \<lparr>Services = [], Total = 3, Page = 2, PageSize = 10, TotalPages = 1\<rparr>,
      [CountServices w, SelectServices w col dir 10 10])"
proof -
  let ?q = "\<lparr>Search = '''', SortBy = '''', SortDir = '''', Page = 2, PageSize = 10\<rparr>"
  have t: "total_pages 3 10 = 1" by (simp add: total_pages_div)
  from page_past_the_end_is_empty [OF sample_db_no_fault, of ?q]
  show ?thesis by (simp add: sample_matching_all t)
qed


end
